theory Spec2Isabelle
  imports Main
begin

section \<open>Token model (src/main.py, lines 5-38)\<close>

text \<open>
  \<^verbatim>\<open>TokenKind\<close> is a Python \<^verbatim>\<open>Enum\<close>; the member's \<^verbatim>\<open>value\<close> is
  also its precedence. \<^verbatim>\<open>_member_names_\<close> lists the members in declaration order.
\<close>

datatype TokenKind = PLUS | MULTIPLY | NUMBER

fun kind_value :: "TokenKind \<Rightarrow> int" where
  "kind_value PLUS = 0"
| "kind_value MULTIPLY = 1"
| "kind_value NUMBER = 2"

definition member_names :: "TokenKind list" where
  "member_names = [PLUS, MULTIPLY, NUMBER]"

text \<open>
  Python list subscription: a negative index counts from the end, and an index outside
  \<open>-len .. len - 1\<close> raises \<^verbatim>\<open>IndexError\<close> (here \<open>None\<close>).
\<close>

definition py_index :: "'a list \<Rightarrow> int \<Rightarrow> 'a option" where
  "py_index xs i =
     (let n = int (length xs); j = (if i < 0 then n + i else i)
      in if 0 \<le> j \<and> j < n then Some (xs ! nat j) else None)"

text \<open>
  \<^verbatim>\<open>increase\<close>: the subscription of \<^verbatim>\<open>_member_names_\<close> is only reached for
  \<open>value < 2\<close>, where it is in range; the out-of-range branch of the model returns the
  receiver and is never taken.
\<close>

definition increase :: "TokenKind \<Rightarrow> TokenKind" where
  "increase self =
     (let v = kind_value self + 1
      in if v \<ge> kind_value NUMBER then NUMBER
         else (case py_index member_names v of Some k \<Rightarrow> k | None \<Rightarrow> self))"

text \<open>
  The scanner builds every token from one character of the source, so the lexeme (a
  one-character \<^verbatim>\<open>str\<close>) is a \<^typ>\<open>char\<close>. A \<^typ>\<open>char\<close> stands for the code point
  of the same number (0 to 255).
\<close>

record Token =
  lexeme :: char
  kind :: TokenKind

text \<open>
  The exceptions the program can raise, named by the failure they stand for:
  \<^item> \<open>UnrecognizedCharacter c\<close>: \<^verbatim>\<open>ValueError("Unresolved token c")\<close> in \<^verbatim>\<open>simple_scan\<close>;
  \<^item> \<open>InvalidNumberLiteral\<close>: the \<^verbatim>\<open>ValueError\<close> of \<^verbatim>\<open>int(lexeme)\<close> in \<^verbatim>\<open>number\<close>;
  \<^item> \<open>NoPrefixParselet\<close>: the \<^verbatim>\<open>TypeError\<close> of calling the \<^verbatim>\<open>None\<close> in slot 0 of the
    jump table (line 86);
  \<^item> \<open>NoInfixParselet\<close>: the \<^verbatim>\<open>TypeError\<close> of calling the \<^verbatim>\<open>None\<close> in slot 1 of the
    jump table (line 94);
  \<^item> \<open>StackUnderflow\<close>: the \<^verbatim>\<open>IndexError\<close> of \<^verbatim>\<open>stack.pop()\<close> on an empty list;
  \<^item> \<open>TokenIndexError\<close>: the \<^verbatim>\<open>IndexError\<close> of \<^verbatim>\<open>self.tokens[...]\<close> out of range.
\<close>

datatype error =
    UnrecognizedCharacter char
  | InvalidNumberLiteral
  | NoPrefixParselet
  | NoInfixParselet
  | StackUnderflow
  | TokenIndexError

text \<open>
  \<^verbatim>\<open>str.isspace\<close> and \<^verbatim>\<open>str.isdigit\<close> on one character, for the code points below
  256: the white space characters are TAB to CR, FS to US, SPACE, NEL and NBSP; the
  digit characters are 0 to 9 and the superscripts two, three and one.
\<close>

definition isspace :: "char \<Rightarrow> bool" where
  "isspace c =
     (let n = (of_char c :: nat)
      in (9 \<le> n \<and> n \<le> 13) \<or> (28 \<le> n \<and> n \<le> 32) \<or> n = 133 \<or> n = 160)"

definition isdigit :: "char \<Rightarrow> bool" where
  "isdigit c =
     (let n = (of_char c :: nat)
      in (48 \<le> n \<and> n \<le> 57) \<or> n = 178 \<or> n = 179 \<or> n = 185)"

text \<open>
  \<^verbatim>\<open>int(s)\<close> on a one-character string: the value of a decimal digit, and
  \<^verbatim>\<open>ValueError\<close> (here \<open>None\<close>) for every other code point below 256, the
  superscript digits among them.
\<close>

definition py_int :: "char \<Rightarrow> int option" where
  "py_int c =
     (let n = (of_char c :: nat)
      in if 48 \<le> n \<and> n \<le> 57 then Some (int n - 48) else None)"

text \<open>The loop of \<^verbatim>\<open>simple_scan\<close>, with the list \<^verbatim>\<open>tokens\<close> as accumulator.\<close>

fun simple_scan_loop :: "string \<Rightarrow> Token list \<Rightarrow> error + Token list" where
  "simple_scan_loop [] tokens = Inr tokens"
| "simple_scan_loop (c # source) tokens =
     (if isspace c then simple_scan_loop source tokens
      else if isdigit c then
        simple_scan_loop source (tokens @ [\<lparr>lexeme = c, kind = NUMBER\<rparr>])
      else if c = CHR ''+'' then
        simple_scan_loop source (tokens @ [\<lparr>lexeme = c, kind = PLUS\<rparr>])
      else if c = CHR ''*'' then
        simple_scan_loop source (tokens @ [\<lparr>lexeme = c, kind = MULTIPLY\<rparr>])
      else Inl (UnrecognizedCharacter c))"

definition simple_scan :: "string \<Rightarrow> error + Token list" where
  "simple_scan source = simple_scan_loop source []"

section \<open>Bytecode (lines 41-61)\<close>

text \<open>
  The three instruction classes. Their renderings \<^verbatim>\<open>__str__\<close> (\<^verbatim>\<open>CONST v\<close>, \<^verbatim>\<open>ADD\<close>,
  \<^verbatim>\<open>MUL\<close>) only serve the printed listing and are left out.
\<close>

datatype BytecodeInstruction =
    ConstantInstruction int
  | AddInstruction
  | MultiplyInstruction

section \<open>The Pratt parser (lines 64-112)\<close>

text \<open>
  The parser object: the token list, the cursor \<^verbatim>\<open>current\<close> (a Python \<^verbatim>\<open>int\<close>) and
  the bytecode emitted so far. The jump table is the same for every parser and is a
  constant of the model; its entries name the bound methods.
\<close>

record PrattParser =
  tokens :: "Token list"
  current :: int
  bytecode :: "BytecodeInstruction list"

datatype parselet = Number_parselet | Binary_parselet

fun jumptable :: "TokenKind \<Rightarrow> parselet option \<times> parselet option" where
  "jumptable NUMBER = (Some Number_parselet, None)"
| "jumptable PLUS = (None, Some Binary_parselet)"
| "jumptable MULTIPLY = (None, Some Binary_parselet)"

definition PrattParser_init :: "Token list \<Rightarrow> PrattParser" where
  "PrattParser_init toks = \<lparr>tokens = toks, current = 0, bytecode = []\<rparr>"

text \<open>
  \<^verbatim>\<open>emit\<close> appends to the bytecode; the line it prints is the rendering of the same
  instruction, so the printed listing is the bytecode in order.
\<close>

definition emit :: "BytecodeInstruction \<Rightarrow> PrattParser \<Rightarrow> PrattParser" where
  "emit instruction p = p\<lparr>bytecode := bytecode p @ [instruction]\<rparr>"

text \<open>
  A method returns the exception it raised, if any, with the parser as it was left:
  the object is mutated in place, so the caller sees the state at the raise.
\<close>

definition number :: "PrattParser \<Rightarrow> error option \<times> PrattParser" where
  "number p =
     (if current p \<ge> int (length (tokens p)) then (None, p)
      else
        let p1 = p\<lparr>current := current p + 1\<rparr>
        in case py_index (tokens p1) (current p1 - 1) of
             None \<Rightarrow> (Some TokenIndexError, p1)
           | Some t \<Rightarrow>
               (case py_int (lexeme t) of
                  None \<Rightarrow> (Some InvalidNumberLiteral, p1)
                | Some v \<Rightarrow> (None, emit (ConstantInstruction v) p1)))"

text \<open>
  \<^verbatim>\<open>parse_precedence\<close>, its \<^verbatim>\<open>while\<close> loop and \<^verbatim>\<open>binary\<close> are mutually recursive.
  The loop reads \<^verbatim>\<open>self.tokens[self.current]\<close> in its condition and again in its body,
  with the cursor unchanged in between: the model reads it once.
\<close>

function
  parse_precedence :: "int \<Rightarrow> PrattParser \<Rightarrow> error option \<times> PrattParser" and
  parse_precedence_loop :: "int \<Rightarrow> PrattParser \<Rightarrow> error option \<times> PrattParser" and
  binary :: "PrattParser \<Rightarrow> error option \<times> PrattParser"
where
  "parse_precedence precedence p =
     (if current p \<ge> int (length (tokens p)) then (None, p)
      else
        case py_index (tokens p) (current p) of
          None \<Rightarrow> (Some TokenIndexError, p)
        | Some start \<Rightarrow>
            (case fst (jumptable (kind start)) of
               None \<Rightarrow> (Some NoPrefixParselet, p)
             | Some jump \<Rightarrow>
                 (case (case jump of Number_parselet \<Rightarrow> number p
                                   | Binary_parselet \<Rightarrow> binary p) of
                    (Some e, p') \<Rightarrow> (Some e, p')
                  | (None, p') \<Rightarrow> parse_precedence_loop precedence p')))"
| "parse_precedence_loop precedence p =
     (if current p < int (length (tokens p)) then
        case py_index (tokens p) (current p) of
          None \<Rightarrow> (Some TokenIndexError, p)
        | Some t \<Rightarrow>
            if precedence \<le> kind_value (kind t) then
              (case snd (jumptable (kind t)) of
                 None \<Rightarrow> (Some NoInfixParselet, p)
               | Some jump \<Rightarrow>
                   (case (case jump of Number_parselet \<Rightarrow> number p
                                     | Binary_parselet \<Rightarrow> binary p) of
                      (Some e, p') \<Rightarrow> (Some e, p')
                    | (None, p') \<Rightarrow> parse_precedence_loop precedence p'))
            else (None, p)
      else (None, p))"
| "binary p =
     (if current p \<ge> int (length (tokens p)) then (None, p)
      else
        case py_index (tokens p) (current p) of
          None \<Rightarrow> (Some TokenIndexError, p)
        | Some operator \<Rightarrow>
            (case parse_precedence (kind_value (increase (kind operator)))
                    (p\<lparr>current := current p + 1\<rparr>) of
               (Some e, p') \<Rightarrow> (Some e, p')
             | (None, p') \<Rightarrow>
                 (case kind operator of
                    MULTIPLY \<Rightarrow> (None, emit MultiplyInstruction p')
                  | PLUS \<Rightarrow> (None, emit AddInstruction p')
                  | NUMBER \<Rightarrow> (None, p'))))"
  by pat_completeness auto

text \<open>The call \<^verbatim>\<open>jump()\<close> of a bound method taken from the jump table.\<close>

definition call :: "parselet \<Rightarrow> PrattParser \<Rightarrow> error option \<times> PrattParser" where
  "call jump p = (case jump of Number_parselet \<Rightarrow> number p | Binary_parselet \<Rightarrow> binary p)"

text \<open>
  A driver for sequences of calls on one parser object: the three methods a caller can
  invoke, and the parser after each call of a sequence. An exception leaves the object
  as it was at the raise, and the next call goes on from there.
\<close>

datatype parser_call = Call_parse_precedence int | Call_number | Call_binary

fun run_call :: "parser_call \<Rightarrow> PrattParser \<Rightarrow> error option \<times> PrattParser" where
  "run_call (Call_parse_precedence precedence) p = parse_precedence precedence p"
| "run_call Call_number p = number p"
| "run_call Call_binary p = binary p"

fun run_calls :: "parser_call list \<Rightarrow> PrattParser \<Rightarrow> PrattParser list" where
  "run_calls [] p = [p]"
| "run_calls (c # cs) p = p # run_calls cs (snd (run_call c p))"

section \<open>The stack interpreter (lines 115-138)\<close>

text \<open>
  The operand stack is a Python list: \<^verbatim>\<open>append\<close> pushes at the end and \<^verbatim>\<open>pop\<close>
  takes the last element, raising \<^verbatim>\<open>IndexError\<close> on an empty list.
\<close>

definition pop :: "int list \<Rightarrow> error + (int \<times> int list)" where
  "pop stack = (if stack = [] then Inl StackUnderflow else Inr (last stack, butlast stack))"

fun execute_instruction :: "BytecodeInstruction \<Rightarrow> int list \<Rightarrow> error + int list" where
  "execute_instruction (ConstantInstruction v) stack = Inr (stack @ [v])"
| "execute_instruction MultiplyInstruction stack =
     (case pop stack of
        Inl e \<Rightarrow> Inl e
      | Inr (b, stack1) \<Rightarrow>
          (case pop stack1 of
             Inl e \<Rightarrow> Inl e
           | Inr (a, stack2) \<Rightarrow> Inr (stack2 @ [a * b])))"
| "execute_instruction AddInstruction stack =
     (case pop stack of
        Inl e \<Rightarrow> Inl e
      | Inr (b, stack1) \<Rightarrow>
          (case pop stack1 of
             Inl e \<Rightarrow> Inl e
           | Inr (a, stack2) \<Rightarrow> Inr (stack2 @ [a + b])))"

text \<open>
  The \<^verbatim>\<open>for\<close> loop of \<^verbatim>\<open>interpret\<close>. After each instruction the function prints
  the instruction and the whole stack: \<open>out\<close> collects these lines as pairs. The function
  returns nothing; the model returns what was printed and either the exception raised or
  the stack as the loop left it. (\<open>interpret\<close> is a keyword of Isabelle, hence the name
  \<open>interpret_bytecode\<close>.)
\<close>

fun interpret_loop ::
  "BytecodeInstruction list \<Rightarrow> int list \<Rightarrow> (BytecodeInstruction \<times> int list) list \<Rightarrow>
     (BytecodeInstruction \<times> int list) list \<times> (error + int list)" where
  "interpret_loop [] stack out = (out, Inr stack)"
| "interpret_loop (instruction # rest) stack out =
     (case execute_instruction instruction stack of
        Inl e \<Rightarrow> (out, Inl e)
      | Inr stack' \<Rightarrow> interpret_loop rest stack' (out @ [(instruction, stack')]))"

definition interpret_bytecode ::
  "BytecodeInstruction list \<Rightarrow> (BytecodeInstruction \<times> int list) list \<times> (error + int list)" where
  "interpret_bytecode program = interpret_loop program [] []"

text \<open>
  \<^verbatim>\<open>main\<close> with its source text as a parameter (the program fixes it to
  \<^verbatim>\<open>"1 + 2 * 3 + 4"\<close>): the first exception ends the run; otherwise the result is the
  bytecode, the lines printed by the interpreter and the final stack.
\<close>

definition main_on ::
  "string \<Rightarrow> error + (BytecodeInstruction list \<times> (BytecodeInstruction \<times> int list) list \<times> int list)" where
  "main_on source =
     (case simple_scan source of
        Inl e \<Rightarrow> Inl e
      | Inr toks \<Rightarrow>
          (case parse_precedence 0 (PrattParser_init toks) of
             (Some e, parser) \<Rightarrow> Inl e
           | (None, parser) \<Rightarrow>
               (case interpret_bytecode (bytecode parser) of
                  (out, Inl e) \<Rightarrow> Inl e
                | (out, Inr stack) \<Rightarrow> Inr (bytecode parser, out, stack))))"

section \<open>Reference semantics of infix expressions\<close>

text \<open>
  The expressions of the specification: the usual grammar in which \<open>*\<close> binds tighter
  than \<open>+\<close> and both group to the left,
  \<^verbatim>\<open>E ::= E + T | T\<close>, \<^verbatim>\<open>T ::= T * D | D\<close>, \<^verbatim>\<open>D ::= 0 | ... | 9\<close>,
  read over the characters of the source that are not white space, with the syntax tree
  each derivation builds, its value, and its postfix form.
\<close>

datatype expr = Num int | Add expr expr | Mul expr expr

fun eval :: "expr \<Rightarrow> int" where
  "eval (Num n) = n"
| "eval (Add a b) = eval a + eval b"
| "eval (Mul a b) = eval a * eval b"

fun postfix :: "expr \<Rightarrow> BytecodeInstruction list" where
  "postfix (Num n) = [ConstantInstruction n]"
| "postfix (Add a b) = postfix a @ postfix b @ [AddInstruction]"
| "postfix (Mul a b) = postfix a @ postfix b @ [MultiplyInstruction]"

definition decimal_digit :: "char \<Rightarrow> bool" where
  "decimal_digit c = (c \<in> set ''0123456789'')"

definition digit_value :: "char \<Rightarrow> int" where
  "digit_value c = int (of_char c) - int (of_char (CHR ''0''))"

inductive term_chars :: "string \<Rightarrow> expr \<Rightarrow> bool" where
  term_digit: "decimal_digit c \<Longrightarrow> term_chars [c] (Num (digit_value c))"
| term_times: "term_chars cs t \<Longrightarrow> decimal_digit c \<Longrightarrow>
     term_chars (cs @ [CHR ''*'', c]) (Mul t (Num (digit_value c)))"

inductive expr_chars :: "string \<Rightarrow> expr \<Rightarrow> bool" where
  expr_term: "term_chars cs t \<Longrightarrow> expr_chars cs t"
| expr_plus: "expr_chars cs e \<Longrightarrow> term_chars cs' t \<Longrightarrow>
     expr_chars (cs @ CHR ''+'' # cs') (Add e t)"

definition strip_space :: "string \<Rightarrow> string" where
  "strip_space source = filter (\<lambda>c. \<not> isspace c) source"

code_pred term_chars .

code_pred expr_chars .


section \<open>Expressions in flat form\<close>

text \<open>
  For the proofs, an expression is a first term and the terms added to it, and a term is
  a first digit and the digits multiplied to it: their text, their syntax tree (grouped
  to the left) and the bytecode the parser emits for them. \<open>char_token\<close> is the token
  the scanner makes of a digit or operator character.
\<close>

definition char_token :: "char \<Rightarrow> Token" where
  "char_token c =
     \<lparr>lexeme = c,
      kind = (if c = CHR ''+'' then PLUS else if c = CHR ''*'' then MULTIPLY else NUMBER)\<rparr>"

definition mul_text :: "char list \<Rightarrow> string" where
  "mul_text ds = concat (map (\<lambda>d. [CHR ''*'', d]) ds)"

definition mul_code :: "char list \<Rightarrow> BytecodeInstruction list" where
  "mul_code ds = concat (map (\<lambda>d. [ConstantInstruction (digit_value d), MultiplyInstruction]) ds)"

fun term_text :: "char \<times> char list \<Rightarrow> string" where
  "term_text (c, ds) = c # mul_text ds"

fun term_code :: "char \<times> char list \<Rightarrow> BytecodeInstruction list" where
  "term_code (c, ds) = ConstantInstruction (digit_value c) # mul_code ds"

fun term_tree :: "char \<times> char list \<Rightarrow> expr" where
  "term_tree (c, ds) = foldl (\<lambda>t d. Mul t (Num (digit_value d))) (Num (digit_value c)) ds"

fun term_digits :: "char \<times> char list \<Rightarrow> bool" where
  "term_digits (c, ds) = (decimal_digit c \<and> list_all decimal_digit ds)"

definition plus_text :: "(char \<times> char list) list \<Rightarrow> string" where
  "plus_text ts = concat (map (\<lambda>u. CHR ''+'' # term_text u) ts)"

definition plus_code :: "(char \<times> char list) list \<Rightarrow> BytecodeInstruction list" where
  "plus_code ts = concat (map (\<lambda>u. term_code u @ [AddInstruction]) ts)"

definition expr_tree :: "(char \<times> char list) \<times> (char \<times> char list) list \<Rightarrow> expr" where
  "expr_tree x = foldl (\<lambda>e u. Add e (term_tree u)) (term_tree (fst x)) (snd x)"

text \<open>
  \<open>shift n code p\<close> is the parser \<open>p\<close> after \<open>n\<close> tokens were consumed and \<open>code\<close> was
  emitted; \<open>at_cursor p pre suf\<close> says that the tokens \<open>pre\<close> lie below the cursor of
  \<open>p\<close> and the tokens \<open>suf\<close> from the cursor on.
\<close>

definition shift :: "nat \<Rightarrow> BytecodeInstruction list \<Rightarrow> PrattParser \<Rightarrow> PrattParser" where
  "shift n code p = p\<lparr>current := current p + int n, bytecode := bytecode p @ code\<rparr>"

definition at_cursor :: "PrattParser \<Rightarrow> Token list \<Rightarrow> Token list \<Rightarrow> bool" where
  "at_cursor p pre suf \<longleftrightarrow> tokens p = pre @ suf \<and> current p = int (length pre)"

section \<open>Relations between parser states\<close>

text \<open>
  \<open>advances p p'\<close>: from \<open>p\<close> to \<open>p'\<close> the token list is the same, the cursor has not
  moved back and has stayed within the token list if it was, and the bytecode has only
  been appended to.
\<close>

definition advances :: "PrattParser \<Rightarrow> PrattParser \<Rightarrow> bool" where
  "advances p p' \<longleftrightarrow>
     tokens p' = tokens p \<and> current p \<le> current p' \<and>
     (current p \<le> int (length (tokens p)) \<longrightarrow> current p' \<le> int (length (tokens p))) \<and>
     take (length (bytecode p)) (bytecode p') = bytecode p"

text \<open>
  \<open>same_from p q\<close>: \<open>q\<close> is \<open>p\<close> with a token list that may differ below the cursor
  only; \<open>same_result\<close>: two calls raised the same exception or none, and left parsers
  that are again related in this way.
\<close>

definition same_from :: "PrattParser \<Rightarrow> PrattParser \<Rightarrow> bool" where
  "same_from p q \<longleftrightarrow>
     current q = current p \<and> bytecode q = bytecode p \<and>
     length (tokens q) = length (tokens p) \<and>
     (\<forall>i. current p \<le> i \<and> i < int (length (tokens p)) \<longrightarrow>
          tokens q ! nat i = tokens p ! nat i)"

definition same_result ::
  "error option \<times> PrattParser \<Rightarrow> error option \<times> PrattParser \<Rightarrow> bool" where
  "same_result r r' \<longleftrightarrow> fst r = fst r' \<and> same_from (snd r) (snd r')"

section \<open>Termination of the parser\<close>

lemma number_mono:
  "tokens (snd (number p)) = tokens p \<and> current p \<le> current (snd (number p)) \<and>
     (current p < int (length (tokens p)) \<longrightarrow> current p < current (snd (number p)))"
  by (auto simp: number_def emit_def Let_def split: if_splits option.splits)

lemma parse_mono_dom:
  "parse_precedence_parse_precedence_loop_binary_dom (Inl (prec, p)) \<Longrightarrow>
     tokens (snd (parse_precedence prec p)) = tokens p \<and>
     current p \<le> current (snd (parse_precedence prec p))"
  "parse_precedence_parse_precedence_loop_binary_dom (Inr (Inl (prec', q))) \<Longrightarrow>
     tokens (snd (parse_precedence_loop prec' q)) = tokens q \<and>
     current q \<le> current (snd (parse_precedence_loop prec' q))"
  "parse_precedence_parse_precedence_loop_binary_dom (Inr (Inr b)) \<Longrightarrow>
     tokens (snd (binary b)) = tokens b \<and>
     current b \<le> current (snd (binary b)) \<and>
     (fst (binary b) = None \<and> current b < int (length (tokens b)) \<longrightarrow>
        current b < current (snd (binary b)))"
proof (induction rule: parse_precedence_parse_precedence_loop_binary.pinduct)
  case (1 precedence p)
  note eq = parse_precedence.psimps[OF 1(1)]
  show ?case
  proof (cases "current p \<ge> int (length (tokens p))")
    case True
    then show ?thesis by (simp add: eq)
  next
    case inb: False
    show ?thesis
    proof (cases "py_index (tokens p) (current p)")
      case None
      then show ?thesis using inb by (simp add: eq)
    next
      case (Some start)
      show ?thesis
      proof (cases "fst (jumptable (kind start))")
        case None
        then show ?thesis using inb Some by (simp add: eq)
      next
        case (Some jump)
        obtain x y where xy: "(x, y) = call jump p"
          by (metis surj_pair)
        have cm: "tokens y = tokens p \<and> current p \<le> current y"
        proof (cases jump)
          case Number_parselet
          then show ?thesis using xy number_mono[of p] by (simp add: call_def split: prod.splits) (metis snd_conv)
        next
          case Binary_parselet
          then show ?thesis using xy 1(2)[OF inb \<open>py_index (tokens p) (current p) = Some start\<close> Some]
            by (simp add: call_def) (metis snd_conv)
        qed
        show ?thesis
        proof (cases x)
          case None
          have "tokens (snd (parse_precedence_loop precedence y)) = tokens y \<and>
             current y \<le> current (snd (parse_precedence_loop precedence y))"
            using 1(3)[OF inb \<open>py_index (tokens p) (current p) = Some start\<close> Some xy[unfolded call_def] None] .
          moreover have "parse_precedence precedence p = parse_precedence_loop precedence y"
            using inb \<open>py_index (tokens p) (current p) = Some start\<close> Some xy[symmetric] None
            by (simp add: eq call_def)
          ultimately show ?thesis using cm by simp
        next
          case (Some e)
          have "parse_precedence precedence p = (Some e, y)"
            using inb \<open>py_index (tokens p) (current p) = Some start\<close> \<open>fst (jumptable (kind start)) = Some jump\<close> xy[symmetric] Some
            by (simp add: eq call_def)
          then show ?thesis using cm by simp
        qed
      qed
    qed
  qed
next
  case (2 precedence p)
  note eq = parse_precedence_loop.psimps[OF 2(1)]
  show ?case
  proof (cases "current p < int (length (tokens p))")
    case False
    then show ?thesis by (simp add: eq)
  next
    case inb: True
    show ?thesis
    proof (cases "py_index (tokens p) (current p)")
      case None
      then show ?thesis using inb by (simp add: eq)
    next
      case tok: (Some t)
      show ?thesis
      proof (cases "precedence \<le> kind_value (kind t)")
        case False
        then show ?thesis using inb tok by (simp add: eq)
      next
        case le: True
        show ?thesis
        proof (cases "snd (jumptable (kind t))")
          case None
          then show ?thesis using inb tok le by (simp add: eq)
        next
          case (Some jump)
          obtain x y where xy: "(x, y) = call jump p"
            by (metis surj_pair)
          have cm: "tokens y = tokens p \<and> current p \<le> current y"
          proof (cases jump)
            case Number_parselet
            then show ?thesis using xy number_mono[of p]
              by (simp add: call_def) (metis snd_conv)
          next
            case Binary_parselet
            then show ?thesis using xy 2(2)[OF inb tok le Some]
              by (simp add: call_def) (metis snd_conv)
          qed
          show ?thesis
          proof (cases x)
            case None
            have "tokens (snd (parse_precedence_loop precedence y)) = tokens y \<and>
               current y \<le> current (snd (parse_precedence_loop precedence y))"
              using 2(3)[OF inb tok le Some xy[unfolded call_def] None] .
            moreover have "parse_precedence_loop precedence p = parse_precedence_loop precedence y"
              using inb tok le Some xy[symmetric] None
              by (simp add: eq call_def)
            ultimately show ?thesis using cm by simp
          next
            case (Some e)
            have "parse_precedence_loop precedence p = (Some e, y)"
              using inb tok le \<open>snd (jumptable (kind t)) = Some jump\<close> xy[symmetric] Some
              by (simp add: eq call_def)
            then show ?thesis using cm by simp
          qed
        qed
      qed
    qed
  qed
next
  case (3 p)
  note eq = binary.psimps[OF 3(1)]
  show ?case
  proof (cases "current p \<ge> int (length (tokens p))")
    case True
    then show ?thesis by (simp add: eq)
  next
    case inb: False
    show ?thesis
    proof (cases "py_index (tokens p) (current p)")
      case None
      then show ?thesis using inb by (simp add: eq)
    next
      case tok: (Some operator)
      let ?r = "parse_precedence (kind_value (increase (kind operator))) (p\<lparr>current := current p + 1\<rparr>)"
      have ih: "tokens (snd ?r) = tokens p \<and> current p + 1 \<le> current (snd ?r)"
        using 3(2)[OF inb tok] by simp
      have "tokens (snd (binary p)) = tokens (snd ?r) \<and> current (snd (binary p)) = current (snd ?r)"
        using inb tok
        by (simp add: eq emit_def split: prod.splits option.splits TokenKind.splits)
      then show ?thesis using ih by simp
    qed
  qed
qed

termination parse_precedence
proof (relation "measures [\<lambda>x. case x of Inl (prec, p) \<Rightarrow> nat (int (length (tokens p)) - current p)
         | Inr (Inl (prec, p)) \<Rightarrow> nat (int (length (tokens p)) - current p)
         | Inr (Inr p) \<Rightarrow> nat (int (length (tokens p)) - current p),
       \<lambda>x. case x of Inl _ \<Rightarrow> 2 | Inr (Inl _) \<Rightarrow> 1 | Inr (Inr _) \<Rightarrow> 0]", goal_cases)
  case 1
  then show ?case by simp
next
  case (2 precedence p x2 x2a)
  then show ?case by simp
next
  case (3 precedence p x2 x2a x y)
  have "tokens y = tokens p \<and> current p \<le> current y"
  proof (cases x2a)
    case Number_parselet
    then show ?thesis using 3(4) number_mono[of p] by simp (metis snd_conv)
  next
    case Binary_parselet
    then show ?thesis using 3(4) parse_mono_dom(3)[OF 3(6)] by simp (metis snd_conv)
  qed
  then show ?case using 3(1) by auto
next
  case (4 precedence p x2 x2a)
  then show ?case by simp
next
  case (5 precedence p x2 x2a x y)
  have "tokens y = tokens p \<and> current p < current y"
  proof (cases x2a)
    case Number_parselet
    then show ?thesis using 5(1,5) number_mono[of p] by simp (metis snd_conv)
  next
    case Binary_parselet
    then show ?thesis using 5(1,5,6) parse_mono_dom(3)[OF 5(7)]
      by simp (metis fst_conv snd_conv)
  qed
  then show ?case using 5(1) by auto
next
  case (6 p x2)
  then show ?case by simp
qed

declare parse_precedence.simps [simp del]
declare parse_precedence_loop.simps [simp del]
declare binary.simps [simp del]

section \<open>The precedence successor\<close>

lemma increase_simps:
  "increase PLUS = MULTIPLY" "increase MULTIPLY = NUMBER" "increase NUMBER = NUMBER"
  by (simp_all add: increase_def member_names_def py_index_def)

text \<open>
  Claim C4. \<^verbatim>\<open>increase\<close> is the saturating successor on the order
  \<open>PLUS < MULTIPLY < NUMBER\<close> given by the member values: it maps \<open>PLUS\<close> to
  \<open>MULTIPLY\<close>, \<open>MULTIPLY\<close> to \<open>NUMBER\<close> and \<open>NUMBER\<close> to itself; for every kind the
  result is the next value capped at \<open>NUMBER\<close>, so it never exceeds \<open>NUMBER\<close>.
\<close>

theorem increase_saturating:
  "increase PLUS = MULTIPLY \<and> increase MULTIPLY = NUMBER \<and> increase NUMBER = NUMBER \<and>
   kind_value PLUS < kind_value MULTIPLY \<and> kind_value MULTIPLY < kind_value NUMBER \<and>
   kind_value (increase k) = min (kind_value k + 1) (kind_value NUMBER) \<and>
   kind_value (increase k) \<le> kind_value NUMBER \<and>
   kind_value k \<le> kind_value (increase k)"
  by (cases k) (simp_all add: increase_simps)

section \<open>The interpreter\<close>

lemma pop_snoc: "pop (stack @ [v]) = Inr (v, stack)"
  by (simp add: pop_def)

lemma pop_Nil: "pop [] = Inl StackUnderflow"
  by (simp add: pop_def)

lemma short_stack: "length (stack :: int list) < 2 \<Longrightarrow> stack = [] \<or> (\<exists>v. stack = [] @ [v])"
  by (cases stack) auto

lemma execute_binary_ok:
  "execute_instruction AddInstruction (stack @ [a, b]) = Inr (stack @ [a + b])"
  "execute_instruction MultiplyInstruction (stack @ [a, b]) = Inr (stack @ [a * b])"
proof -
  have "stack @ [a, b] = (stack @ [a]) @ [b]" by simp
  then show "execute_instruction AddInstruction (stack @ [a, b]) = Inr (stack @ [a + b])"
    "execute_instruction MultiplyInstruction (stack @ [a, b]) = Inr (stack @ [a * b])"
    by (simp_all only: execute_instruction.simps pop_snoc sum.case prod.case)
qed

lemma execute_binary_underflow:
  assumes "length stack < 2"
  shows "execute_instruction AddInstruction stack = Inl StackUnderflow"
    "execute_instruction MultiplyInstruction stack = Inl StackUnderflow"
  using short_stack[OF assms] by (auto simp: pop_Nil pop_snoc simp del: append_Nil)

text \<open>
  Claim C6. On a stack with at least two elements, \<open>stack @ [a, b]\<close>, the instruction
  \<^verbatim>\<open>ADD\<close> pops the top \<open>b\<close>, then \<open>a\<close>, and pushes \<open>a + b\<close>; \<^verbatim>\<open>MUL\<close> does the same and
  pushes \<open>a * b\<close>. On a stack with fewer than two elements either instruction fails with
  \<open>StackUnderflow\<close>, and so does the interpreter loop that executes it.
\<close>

theorem add_multiply_execution:
  "execute_instruction AddInstruction (stack @ [a, b]) = Inr (stack @ [a + b]) \<and>
   execute_instruction MultiplyInstruction (stack @ [a, b]) = Inr (stack @ [a * b]) \<and>
   pop (stack @ [a, b]) = Inr (b, stack @ [a]) \<and> pop (stack @ [a]) = Inr (a, stack) \<and>
   (length short < 2 \<longrightarrow>
      execute_instruction AddInstruction short = Inl StackUnderflow \<and>
      execute_instruction MultiplyInstruction short = Inl StackUnderflow \<and>
      interpret_loop (AddInstruction # rest) short out = (out, Inl StackUnderflow) \<and>
      interpret_loop (MultiplyInstruction # rest) short out = (out, Inl StackUnderflow))"
proof -
  have "pop (stack @ [a, b]) = Inr (b, stack @ [a])"
    using pop_snoc[of "stack @ [a]" b] by simp
  moreover have "interpret_loop (AddInstruction # rest) short out = (out, Inl StackUnderflow) \<and>
      interpret_loop (MultiplyInstruction # rest) short out = (out, Inl StackUnderflow)"
    if "length short < 2"
    using execute_binary_underflow[OF that]
    by (simp del: execute_instruction.simps)
  ultimately show ?thesis
    using execute_binary_ok[of stack a b] execute_binary_underflow[of short] pop_snoc[of stack a]
    by blast
qed

theorem add_multiply_execution_witness:
  "length [5 :: int] < 2 \<and>
   execute_instruction AddInstruction [1, 2, 3] = Inr [1, 5] \<and>
   execute_instruction MultiplyInstruction [1, 2, 3] = Inr [1, 6] \<and>
   execute_instruction AddInstruction [5] = Inl StackUnderflow \<and>
   execute_instruction MultiplyInstruction [5] = Inl StackUnderflow"
  using add_multiply_execution[of "[1]" 2 3 "[5]" "[]" "[]"] by simp

section \<open>Runs of the whole program\<close>

text \<open>
  Claim C2. On the source \<^verbatim>\<open>1 + 2 * 3 + 4\<close> the parser emits
  \<^verbatim>\<open>CONST 1, CONST 2, CONST 3, MUL, ADD, CONST 4, ADD\<close>, and the interpreter's stack after
  each instruction is \<open>[1]\<close>, \<open>[1, 2]\<close>, \<open>[1, 2, 3]\<close>, \<open>[1, 6]\<close>, \<open>[7]\<close>, \<open>[7, 4]\<close>,
  \<open>[11]\<close>, ending with the single value 11.
\<close>

theorem worked_scenario:
  "main_on ''1 + 2 * 3 + 4'' =
     Inr ([ConstantInstruction 1, ConstantInstruction 2, ConstantInstruction 3,
           MultiplyInstruction, AddInstruction, ConstantInstruction 4, AddInstruction],
          [(ConstantInstruction 1, [1]), (ConstantInstruction 2, [1, 2]),
           (ConstantInstruction 3, [1, 2, 3]), (MultiplyInstruction, [1, 6]),
           (AddInstruction, [7]), (ConstantInstruction 4, [7, 4]), (AddInstruction, [11])],
          [11])"
  by code_simp

lemma scan_loop_space:
  "\<forall>c\<in>set source. isspace c \<Longrightarrow> simple_scan_loop source acc = Inr acc"
  by (induction source) simp_all

lemma parse_precedence_empty:
  "parse_precedence precedence (PrattParser_init []) = (None, PrattParser_init [])"
  by (simp add: parse_precedence.simps PrattParser_init_def)

text \<open>
  Claim C10. On a source that is empty or holds white space only, the run raises
  nothing: the scanner returns no token, \<^verbatim>\<open>parse_precedence(0)\<close> returns at once with
  no bytecode emitted, and the interpreter runs the empty bytecode to the end with an
  empty stack, printing nothing.
\<close>

theorem blank_source_runs:
  assumes "\<forall>c\<in>set source. isspace c"
  shows "simple_scan source = Inr [] \<and>
         parse_precedence 0 (PrattParser_init []) = (None, PrattParser_init []) \<and>
         bytecode (PrattParser_init []) = [] \<and>
         interpret_bytecode [] = ([], Inr []) \<and>
         main_on source = Inr ([], [], [])"
proof -
  have s: "simple_scan source = Inr []"
    using assms by (simp add: simple_scan_def scan_loop_space)
  have b: "bytecode (PrattParser_init []) = []"
    by (simp add: PrattParser_init_def)
  have i: "interpret_bytecode [] = ([], Inr [])"
    by (simp add: interpret_bytecode_def)
  show ?thesis
    by (simp add: s b i parse_precedence_empty main_on_def)
qed

theorem blank_source_runs_witness:
  "isspace (CHR '' '') \<and> simple_scan '' '' = Inr [] \<and> main_on '' '' = Inr ([], [], [])"
proof -
  have h: "\<forall>c\<in>set '' ''. isspace c" by (simp add: isspace_def)
  show ?thesis using h blank_source_runs[OF h] by simp
qed

lemma jumptable_prefix_None: "fst (jumptable k) = None \<longleftrightarrow> k = PLUS \<or> k = MULTIPLY"
  by (cases k) simp_all

text \<open>
  Claim C7. When the first token of the scanned source is \<open>PLUS\<close> or \<open>MULTIPLY\<close>, the
  kinds without a prefix handler, \<^verbatim>\<open>parse_precedence\<close> raises \<open>NoPrefixParselet\<close> with
  the parser untouched: the cursor is still 0 and no instruction has been emitted.
\<close>

theorem operator_first_no_prefix:
  assumes "simple_scan source = Inr (t # ts)"
      and "kind t = PLUS \<or> kind t = MULTIPLY"
  shows "parse_precedence precedence (PrattParser_init (t # ts)) =
           (Some NoPrefixParselet, PrattParser_init (t # ts)) \<and>
         bytecode (PrattParser_init (t # ts)) = [] \<and>
         main_on source = Inl NoPrefixParselet"
proof -
  have n: "fst (jumptable (kind t)) = None"
    using assms(2) by (simp add: jumptable_prefix_None)
  have p: "parse_precedence precedence (PrattParser_init (t # ts)) =
           (Some NoPrefixParselet, PrattParser_init (t # ts))" for precedence
    by (simp add: parse_precedence.simps PrattParser_init_def py_index_def n)
  show ?thesis
    by (simp add: p assms(1) main_on_def) (simp add: PrattParser_init_def)
qed

theorem operator_first_no_prefix_witness:
  "simple_scan ''+1'' =
     Inr [\<lparr>lexeme = CHR ''+'', kind = PLUS\<rparr>, \<lparr>lexeme = CHR ''1'', kind = NUMBER\<rparr>] \<and>
   main_on ''+1'' = Inl NoPrefixParselet \<and>
   parse_precedence 0 (PrattParser_init
      [\<lparr>lexeme = CHR ''+'', kind = PLUS\<rparr>, \<lparr>lexeme = CHR ''1'', kind = NUMBER\<rparr>]) =
     (Some NoPrefixParselet, \<lparr>tokens =
      [\<lparr>lexeme = CHR ''+'', kind = PLUS\<rparr>, \<lparr>lexeme = CHR ''1'', kind = NUMBER\<rparr>],
      current = 0, bytecode = []\<rparr>)"
proof -
  have s: "simple_scan ''+1'' =
     Inr [\<lparr>lexeme = CHR ''+'', kind = PLUS\<rparr>, \<lparr>lexeme = CHR ''1'', kind = NUMBER\<rparr>]"
    by (simp add: simple_scan_def isspace_def isdigit_def)
  show ?thesis
    using s operator_first_no_prefix[OF s, of 0] by (simp add: PrattParser_init_def)
qed

section \<open>What the interpreter returns\<close>


lemma interpret_loop_append:
  "interpret_loop (xs @ ys) stack out =
     (case interpret_loop xs stack out of
        (out', Inl e) \<Rightarrow> (out', Inl e)
      | (out', Inr stack') \<Rightarrow> interpret_loop ys stack' out')"
  by (induction xs arbitrary: stack out) (simp_all split: sum.splits)






section \<open>Invariants of the parser\<close>

lemma advances_refl: "advances p p"
  by (simp add: advances_def)

lemma take_is_prefix: "take (length xs) ys = xs \<longleftrightarrow> (\<exists>zs. ys = xs @ zs)"
proof
  assume "take (length xs) ys = xs"
  then have "ys = xs @ drop (length xs) ys"
    by (metis append_take_drop_id)
  then show "\<exists>zs. ys = xs @ zs" ..
next
  assume "\<exists>zs. ys = xs @ zs"
  then show "take (length xs) ys = xs" by auto
qed

lemma advances_trans:
  assumes "advances p q" and "advances q r"
  shows "advances p r"
proof -
  obtain c1 where c1: "bytecode q = bytecode p @ c1"
    using assms(1) by (auto simp: advances_def take_is_prefix)
  obtain c2 where c2: "bytecode r = bytecode q @ c2"
    using assms(2) by (auto simp: advances_def take_is_prefix)
  have "bytecode r = bytecode p @ (c1 @ c2)"
    using c1 c2 by simp
  then have "take (length (bytecode p)) (bytecode r) = bytecode p"
    by simp
  moreover have "tokens r = tokens p" "current p \<le> current r"
    "current p \<le> int (length (tokens p)) \<longrightarrow> current r \<le> int (length (tokens p))"
    using assms by (simp_all add: advances_def)
  ultimately show ?thesis by (simp add: advances_def)
qed

lemma advances_step:
  "current p < int (length (tokens p)) \<Longrightarrow> advances p (p\<lparr>current := current p + 1\<rparr>)"
  by (simp add: advances_def)

lemma advances_emit: "advances p (emit i p)"
  by (simp add: advances_def emit_def)

lemma number_advances: "advances p (snd (number p))"
  by (auto simp: number_def Let_def advances_def emit_def split: option.splits)

lemma parse_precedence_unfold:
  "parse_precedence precedence p =
     (if current p \<ge> int (length (tokens p)) then (None, p)
      else
        case py_index (tokens p) (current p) of
          None \<Rightarrow> (Some TokenIndexError, p)
        | Some start \<Rightarrow>
            (case fst (jumptable (kind start)) of
               None \<Rightarrow> (Some NoPrefixParselet, p)
             | Some jump \<Rightarrow>
                 (case call jump p of
                    (Some e, p') \<Rightarrow> (Some e, p')
                  | (None, p') \<Rightarrow> parse_precedence_loop precedence p')))"
  unfolding call_def by (fact parse_precedence.simps)

lemma parse_precedence_loop_unfold:
  "parse_precedence_loop precedence p =
     (if current p < int (length (tokens p)) then
        case py_index (tokens p) (current p) of
          None \<Rightarrow> (Some TokenIndexError, p)
        | Some t \<Rightarrow>
            if precedence \<le> kind_value (kind t) then
              (case snd (jumptable (kind t)) of
                 None \<Rightarrow> (Some NoInfixParselet, p)
               | Some jump \<Rightarrow>
                   (case call jump p of
                      (Some e, p') \<Rightarrow> (Some e, p')
                    | (None, p') \<Rightarrow> parse_precedence_loop precedence p'))
            else (None, p)
      else (None, p))"
  unfolding call_def by (fact parse_precedence_loop.simps)

lemma parse_advances:
  "advances p (snd (parse_precedence prec p))"
  "advances q (snd (parse_precedence_loop prec' q))"
  "advances b (snd (binary b))"
proof (induction prec p and prec' q and b rule: parse_precedence_parse_precedence_loop_binary.induct)
  case (1 precedence p)
  show ?case
  proof (cases "current p \<ge> int (length (tokens p))")
    case True
    then show ?thesis by (simp add: parse_precedence_unfold advances_refl)
  next
    case inb: False
    show ?thesis
    proof (cases "py_index (tokens p) (current p)")
      case None
      then show ?thesis using inb by (simp add: parse_precedence_unfold advances_refl)
    next
      case tok: (Some start)
      show ?thesis
      proof (cases "fst (jumptable (kind start))")
        case None
        then show ?thesis using inb tok by (simp add: parse_precedence_unfold advances_refl)
      next
        case (Some jump)
        obtain x y where xy: "call jump p = (x, y)"
          by (cases "call jump p")
        have cm: "advances p y"
        proof (cases jump)
          case Number_parselet
          then show ?thesis using xy number_advances[of p] by (simp add: call_def)
        next
          case Binary_parselet
          then show ?thesis using xy 1(1)[OF inb tok Some] by (simp add: call_def)
        qed
        show ?thesis
        proof (cases x)
          case None
          have "advances y (snd (parse_precedence_loop precedence y))"
            using 1(2)[OF inb tok Some xy[symmetric, unfolded call_def] None] .
          moreover have "parse_precedence precedence p = parse_precedence_loop precedence y"
            using inb tok Some xy None by (simp add: parse_precedence_unfold)
          ultimately show ?thesis using cm advances_trans by simp
        next
          case (Some e)
          have "parse_precedence precedence p = (Some e, y)"
            using inb tok \<open>fst (jumptable (kind start)) = Some jump\<close> xy Some
            by (simp add: parse_precedence_unfold)
          then show ?thesis using cm by simp
        qed
      qed
    qed
  qed
next
  case (2 precedence p)
  show ?case
  proof (cases "current p < int (length (tokens p))")
    case False
    then show ?thesis by (simp add: parse_precedence_loop_unfold advances_refl)
  next
    case inb: True
    show ?thesis
    proof (cases "py_index (tokens p) (current p)")
      case None
      then show ?thesis using inb by (simp add: parse_precedence_loop_unfold advances_refl)
    next
      case tok: (Some t)
      show ?thesis
      proof (cases "precedence \<le> kind_value (kind t)")
        case False
        then show ?thesis using inb tok by (simp add: parse_precedence_loop_unfold advances_refl)
      next
        case le: True
        show ?thesis
        proof (cases "snd (jumptable (kind t))")
          case None
          then show ?thesis using inb tok le
            by (simp add: parse_precedence_loop_unfold advances_refl)
        next
          case (Some jump)
          obtain x y where xy: "call jump p = (x, y)"
            by (cases "call jump p")
          have cm: "advances p y"
          proof (cases jump)
            case Number_parselet
            then show ?thesis using xy number_advances[of p] by (simp add: call_def)
          next
            case Binary_parselet
            then show ?thesis using xy 2(1)[OF inb tok le Some] by (simp add: call_def)
          qed
          show ?thesis
          proof (cases x)
            case None
            have "advances y (snd (parse_precedence_loop precedence y))"
              using 2(2)[OF inb tok le Some xy[symmetric, unfolded call_def] None] .
            moreover have "parse_precedence_loop precedence p = parse_precedence_loop precedence y"
              using inb tok le Some xy None
              by (subst parse_precedence_loop_unfold) simp
            ultimately show ?thesis using cm advances_trans by simp
          next
            case (Some e)
            have "parse_precedence_loop precedence p = (Some e, y)"
              using inb tok le \<open>snd (jumptable (kind t)) = Some jump\<close> xy Some
              by (subst parse_precedence_loop_unfold) simp
            then show ?thesis using cm by simp
          qed
        qed
      qed
    qed
  qed
next
  case (3 p)
  show ?case
  proof (cases "current p \<ge> int (length (tokens p))")
    case True
    then show ?thesis by (simp add: binary.simps advances_refl)
  next
    case inb: False
    show ?thesis
    proof (cases "py_index (tokens p) (current p)")
      case None
      then show ?thesis using inb by (simp add: binary.simps advances_refl)
    next
      case tok: (Some operator)
      let ?p1 = "p\<lparr>current := current p + 1\<rparr>"
      let ?r = "parse_precedence (kind_value (increase (kind operator))) ?p1"
      have "advances p ?p1" using inb by (simp add: advances_step)
      moreover have "advances ?p1 (snd ?r)"
        using 3[OF inb tok] .
      ultimately have a: "advances p (snd ?r)" by (rule advances_trans)
      obtain x y where xy: "?r = (x, y)"
        by (cases ?r)
      have "snd (binary p) = y \<or> (\<exists>i. snd (binary p) = emit i y)"
        using inb tok xy
        by (cases x; cases "kind operator") (auto simp add: binary.simps)
      then show ?thesis using a xy advances_emit[of y] advances_trans[of p y] by auto
    qed
  qed
qed


lemma run_call_advances: "advances p (snd (run_call c p))"
  by (cases c) (simp_all add: parse_advances number_advances)

lemma run_calls_advances:
  "advances p0 p \<Longrightarrow> s \<in> set (run_calls calls p) \<Longrightarrow> advances p0 s"
proof (induction calls arbitrary: p)
  case Nil
  then show ?case by simp
next
  case (Cons c calls)
  have "advances p0 (snd (run_call c p))"
    using Cons.prems(1) run_call_advances by (rule advances_trans)
  then show ?case using Cons.IH Cons.prems by auto
qed

lemma run_calls_sorted: "sorted (map current (run_calls calls p))"
proof (induction calls arbitrary: p)
  case Nil
  then show ?case by simp
next
  case (Cons c calls)
  have "current p \<le> current s" if "s \<in> set (run_calls calls (snd (run_call c p)))" for s
    using run_calls_advances[OF run_call_advances that] by (simp add: advances_def)
  then show ?case using Cons.IH by auto
qed

lemma py_index_in_range:
  "0 \<le> i \<Longrightarrow> i < int (length xs) \<Longrightarrow> py_index xs i = Some (xs ! nat i)"
  by (simp add: py_index_def)

text \<open>
  Claim C3. With the cursor in range on a token of kind \<open>k\<close>, \<open>PLUS\<close> or \<open>MULTIPLY\<close>,
  \<^verbatim>\<open>binary\<close> moves the cursor by one, runs \<^verbatim>\<open>parse_precedence\<close> from there with the
  value of \<open>increase k\<close>, which is the value of \<open>k\<close> plus one, and, when that call
  returns, appends one instruction to the bytecode the call left: \<^verbatim>\<open>ADD\<close> for \<open>PLUS\<close>,
  \<^verbatim>\<open>MUL\<close> for \<open>MULTIPLY\<close>. The cursor is where the recursive call left it.
\<close>

theorem binary_operator:
  assumes "0 \<le> current p" and "current p < int (length (tokens p))"
      and "kind (tokens p ! nat (current p)) = k" and "k = PLUS \<or> k = MULTIPLY"
  shows "binary p =
           (case parse_precedence (kind_value (increase k)) (p\<lparr>current := current p + 1\<rparr>) of
              (Some e, p') \<Rightarrow> (Some e, p')
            | (None, p') \<Rightarrow>
                (None, emit (if k = PLUS then AddInstruction else MultiplyInstruction) p')) \<and>
         kind_value (increase k) = kind_value k + 1 \<and>
         (fst (binary p) = None \<longrightarrow>
            bytecode (snd (binary p)) =
              bytecode (snd (parse_precedence (kind_value (increase k))
                               (p\<lparr>current := current p + 1\<rparr>))) @
              [if k = PLUS then AddInstruction else MultiplyInstruction] \<and>
            take (length (bytecode p))
              (bytecode (snd (parse_precedence (kind_value (increase k))
                               (p\<lparr>current := current p + 1\<rparr>)))) = bytecode p \<and>
            current (snd (binary p)) =
              current (snd (parse_precedence (kind_value (increase k))
                               (p\<lparr>current := current p + 1\<rparr>))) \<and>
            current p + 1 \<le> current (snd (binary p)))"
proof -
  let ?p1 = "p\<lparr>current := current p + 1\<rparr>"
  let ?r = "parse_precedence (kind_value (increase k)) ?p1"
  let ?op = "if k = PLUS then AddInstruction else MultiplyInstruction"
  have tok: "py_index (tokens p) (current p) = Some (tokens p ! nat (current p))"
    using assms(1,2) by (rule py_index_in_range)
  obtain x y where xy: "?r = (x, y)"
    by (cases ?r)
  have eq: "binary p = (case ?r of (Some e, p') \<Rightarrow> (Some e, p') | (None, p') \<Rightarrow> (None, emit ?op p'))"
    using assms(2,3,4) tok xy by (cases x) (auto simp: binary.simps)
  have succ: "kind_value (increase k) = kind_value k + 1"
    using assms(4) by (auto simp: increase_simps)
  have adv: "advances ?p1 (snd ?r)"
    by (rule parse_advances)
  have rest: "bytecode (snd (binary p)) = bytecode (snd ?r) @ [?op] \<and>
      take (length (bytecode p)) (bytecode (snd ?r)) = bytecode p \<and>
      current (snd (binary p)) = current (snd ?r) \<and>
      current p + 1 \<le> current (snd (binary p))" if "fst (binary p) = None"
  proof -
    have "x = None" using that eq xy by (cases x) simp_all
    then have "binary p = (None, emit ?op y)" using eq xy by simp
    then show ?thesis using adv xy by (simp add: emit_def advances_def)
  qed
  show ?thesis using eq succ rest by blast
qed


lemma same_from_index:
  "same_from p q \<Longrightarrow> 0 \<le> current p \<Longrightarrow> current p < int (length (tokens p)) \<Longrightarrow>
     py_index (tokens q) (current q) = Some (tokens p ! nat (current p)) \<and>
     py_index (tokens p) (current p) = Some (tokens p ! nat (current p))"
  by (simp add: same_from_def py_index_def)

lemma same_from_step:
  "same_from p q \<Longrightarrow> 0 \<le> current p \<Longrightarrow>
     same_from (p\<lparr>current := current p + 1\<rparr>) (q\<lparr>current := current q + 1\<rparr>)"
  by (simp add: same_from_def)

lemma same_from_emit: "same_from p q \<Longrightarrow> same_from (emit i p) (emit i q)"
  by (simp add: same_from_def emit_def)

lemma same_from_oob:
  "same_from p q \<Longrightarrow>
     (int (length (tokens q)) \<le> current q) = (int (length (tokens p)) \<le> current p)"
  by (simp add: same_from_def)

lemma number_same:
  assumes "same_from p q" and "0 \<le> current p"
  shows "same_result (number p) (number q)"
proof (cases "current p \<ge> int (length (tokens p))")
  case True
  then show ?thesis using assms same_from_oob[OF assms(1)]
    by (simp add: number_def same_result_def)
next
  case False
  then have inb: "current p < int (length (tokens p))" by simp
  have "py_index (tokens q) (current q) = Some (tokens p ! nat (current p))"
    "py_index (tokens p) (current p) = Some (tokens p ! nat (current p))"
    using same_from_index[OF assms inb] by simp_all
  then show ?thesis
    using False same_from_oob[OF assms(1)] same_from_step[OF assms]
    by (auto simp: number_def same_result_def Let_def same_from_emit split: option.splits)
qed


lemma call_advances: "advances p (snd (call jump p))"
  by (cases jump) (simp_all add: call_def number_advances parse_advances)

lemma parse_same:
  "\<forall>q. 0 \<le> current p \<longrightarrow> same_from p q \<longrightarrow>
     same_result (parse_precedence prec p) (parse_precedence prec q)"
  "\<forall>q. 0 \<le> current l \<longrightarrow> same_from l q \<longrightarrow>
     same_result (parse_precedence_loop prec' l) (parse_precedence_loop prec' q)"
  "\<forall>q. 0 \<le> current b \<longrightarrow> same_from b q \<longrightarrow> same_result (binary b) (binary q)"
proof (induction prec p and prec' l and b rule: parse_precedence_parse_precedence_loop_binary.induct)
  case (1 precedence p)
  show ?case
  proof (intro allI impI)
    fix q
    assume nn: "0 \<le> current p" and sf: "same_from p q"
    show "same_result (parse_precedence precedence p) (parse_precedence precedence q)"
    proof (cases "current p \<ge> int (length (tokens p))")
      case True
      then show ?thesis using sf same_from_oob[OF sf]
        by (simp add: parse_precedence_unfold same_result_def)
    next
      case inb: False
      then have inq: "\<not> int (length (tokens q)) \<le> current q"
        using same_from_oob[OF sf] by simp
      let ?start = "tokens p ! nat (current p)"
      have tp: "py_index (tokens p) (current p) = Some ?start"
        and tq: "py_index (tokens q) (current q) = Some ?start"
        using same_from_index[OF sf nn] inb by simp_all
      show ?thesis
      proof (cases "fst (jumptable (kind ?start))")
        case None
        then show ?thesis using inb inq tp tq sf
          by (simp add: parse_precedence_unfold same_result_def)
      next
        case (Some jump)
        obtain x y where xy: "call jump p = (x, y)"
          by (cases "call jump p")
        obtain x' y' where xy': "call jump q = (x', y')"
          by (cases "call jump q")
        have "same_result (call jump p) (call jump q)"
        proof (cases jump)
          case Number_parselet
          then show ?thesis using number_same[OF sf nn] by (simp add: call_def)
        next
          case Binary_parselet
          then show ?thesis using 1(1)[OF inb tp Some] nn sf by (simp add: call_def)
        qed
        then have xx: "x' = x" and yy: "same_from y y'"
          using xy xy' by (simp_all add: same_result_def)
        have ny: "0 \<le> current y"
          using call_advances[of p jump] xy nn by (simp add: advances_def)
        show ?thesis
        proof (cases x)
          case None
          have "same_result (parse_precedence_loop precedence y) (parse_precedence_loop precedence y')"
            using 1(2)[OF inb tp Some xy[symmetric, unfolded call_def] None] ny yy by simp
          moreover have "parse_precedence precedence p = parse_precedence_loop precedence y"
            using inb tp Some xy None by (simp add: parse_precedence_unfold)
          moreover have "parse_precedence precedence q = parse_precedence_loop precedence y'"
            using inq tq Some xy' xx None by (simp add: parse_precedence_unfold)
          ultimately show ?thesis by simp
        next
          case (Some e)
          have "parse_precedence precedence p = (Some e, y)"
            using inb tp \<open>fst (jumptable (kind ?start)) = Some jump\<close> xy Some
            by (simp add: parse_precedence_unfold)
          moreover have "parse_precedence precedence q = (Some e, y')"
            using inq tq \<open>fst (jumptable (kind ?start)) = Some jump\<close> xy' xx Some
            by (simp add: parse_precedence_unfold)
          ultimately show ?thesis using yy by (simp add: same_result_def)
        qed
      qed
    qed
  qed
next
  case (2 precedence p)
  show ?case
  proof (intro allI impI)
    fix q
    assume nn: "0 \<le> current p" and sf: "same_from p q"
    show "same_result (parse_precedence_loop precedence p) (parse_precedence_loop precedence q)"
    proof (cases "current p < int (length (tokens p))")
      case False
      then show ?thesis using sf same_from_oob[OF sf]
        by (simp add: parse_precedence_loop_unfold same_result_def)
    next
      case inb: True
      then have inq: "current q < int (length (tokens q))"
        using same_from_oob[OF sf] by simp
      let ?t = "tokens p ! nat (current p)"
      have tp: "py_index (tokens p) (current p) = Some ?t"
        and tq: "py_index (tokens q) (current q) = Some ?t"
        using same_from_index[OF sf nn] inb by simp_all
      show ?thesis
      proof (cases "precedence \<le> kind_value (kind ?t)")
        case False
        then show ?thesis using inb inq tp tq sf
          by (simp add: parse_precedence_loop_unfold same_result_def)
      next
        case le: True
        show ?thesis
        proof (cases "snd (jumptable (kind ?t))")
          case None
          then show ?thesis using inb inq tp tq le sf
            by (simp add: parse_precedence_loop_unfold same_result_def)
        next
          case (Some jump)
          obtain x y where xy: "call jump p = (x, y)"
            by (cases "call jump p")
          obtain x' y' where xy': "call jump q = (x', y')"
            by (cases "call jump q")
          have "same_result (call jump p) (call jump q)"
          proof (cases jump)
            case Number_parselet
            then show ?thesis using number_same[OF sf nn] by (simp add: call_def)
          next
            case Binary_parselet
            then show ?thesis using 2(1)[OF inb tp le Some] nn sf by (simp add: call_def)
          qed
          then have xx: "x' = x" and yy: "same_from y y'"
            using xy xy' by (simp_all add: same_result_def)
          have ny: "0 \<le> current y"
            using call_advances[of p jump] xy nn by (simp add: advances_def)
          show ?thesis
          proof (cases x)
            case None
            have "same_result (parse_precedence_loop precedence y) (parse_precedence_loop precedence y')"
              using 2(2)[OF inb tp le Some xy[symmetric, unfolded call_def] None] ny yy by simp
            moreover have "parse_precedence_loop precedence p = parse_precedence_loop precedence y"
              using inb tp le Some xy None by (subst parse_precedence_loop_unfold) simp
            moreover have "parse_precedence_loop precedence q = parse_precedence_loop precedence y'"
              using inq tq le Some xy' xx None by (subst parse_precedence_loop_unfold) simp
            ultimately show ?thesis by simp
          next
            case (Some e)
            have "parse_precedence_loop precedence p = (Some e, y)"
              using inb tp le \<open>snd (jumptable (kind ?t)) = Some jump\<close> xy Some
              by (subst parse_precedence_loop_unfold) simp
            moreover have "parse_precedence_loop precedence q = (Some e, y')"
              using inq tq le \<open>snd (jumptable (kind ?t)) = Some jump\<close> xy' xx Some
              by (subst parse_precedence_loop_unfold) simp
            ultimately show ?thesis using yy by (simp add: same_result_def)
          qed
        qed
      qed
    qed
  qed
next
  case (3 p)
  show ?case
  proof (intro allI impI)
    fix q
    assume nn: "0 \<le> current p" and sf: "same_from p q"
    show "same_result (binary p) (binary q)"
    proof (cases "current p \<ge> int (length (tokens p))")
      case True
      then show ?thesis using sf same_from_oob[OF sf]
        by (simp add: binary.simps same_result_def)
    next
      case inb: False
      then have inq: "\<not> int (length (tokens q)) \<le> current q"
        using same_from_oob[OF sf] by simp
      let ?operator = "tokens p ! nat (current p)"
      have tp: "py_index (tokens p) (current p) = Some ?operator"
        and tq: "py_index (tokens q) (current q) = Some ?operator"
        using same_from_index[OF sf nn] inb by simp_all
      let ?prec = "kind_value (increase (kind ?operator))"
      let ?p1 = "p\<lparr>current := current p + 1\<rparr>"
      let ?q1 = "q\<lparr>current := current q + 1\<rparr>"
      obtain x y where xy: "parse_precedence ?prec ?p1 = (x, y)"
        by (cases "parse_precedence ?prec ?p1")
      obtain x' y' where xy': "parse_precedence ?prec ?q1 = (x', y')"
        by (cases "parse_precedence ?prec ?q1")
      have "same_result (parse_precedence ?prec ?p1) (parse_precedence ?prec ?q1)"
        using 3[OF inb tp] nn same_from_step[OF sf nn] by simp
      then have xx: "x' = x" and yy: "same_from y y'"
        using xy xy' by (simp_all add: same_result_def)
      show ?thesis
        using inb inq tp tq xy xy' xx yy
        by (cases x; cases "kind ?operator")
           (simp_all add: binary.simps same_result_def same_from_emit)
    qed
  qed
qed


lemma run_call_same:
  "0 \<le> current p \<Longrightarrow> same_from p q \<Longrightarrow> same_result (run_call c p) (run_call c q)"
  using parse_same(1,3)[of p] number_same[of p q] by (cases c) simp_all

lemma run_calls_same:
  "0 \<le> current p \<Longrightarrow> same_from p q \<Longrightarrow>
     list_all2 same_from (run_calls calls p) (run_calls calls q)"
proof (induction calls arbitrary: p q)
  case Nil
  then show ?case by simp
next
  case (Cons c calls)
  have "same_from (snd (run_call c p)) (snd (run_call c q))"
    using run_call_same[OF Cons.prems] by (simp add: same_result_def)
  moreover have "0 \<le> current (snd (run_call c p))"
    using run_call_advances[of p c] Cons.prems(1) by (simp add: advances_def)
  ultimately show ?case using Cons.IH Cons.prems(2) by simp
qed

text \<open>
  Claim C9. From a parser whose cursor is between 0 and the number of tokens, after
  every call of a sequence of calls of \<^verbatim>\<open>parse_precedence\<close>, \<^verbatim>\<open>number\<close> and
  \<^verbatim>\<open>binary\<close> the token list is unchanged and the cursor is still between 0 and the
  number of tokens, and the cursor never decreases from one call to the next; the same
  holds for each single call from any such parser, hence for the calls nested in one.
  No call reads a token below the cursor it starts from, and neither does an iteration
  of the loop of \<^verbatim>\<open>parse_precedence\<close>: on a token list that differs below the cursor
  only, each raises the same exception or none and leaves the same cursor and bytecode.
  Every read of \<^verbatim>\<open>self.tokens\<close> is the first one of such a call or iteration, so none
  goes back below a token already consumed.
\<close>

theorem cursor_monotone:
  assumes "0 \<le> current p" and "current p \<le> int (length (tokens p))"
  shows "sorted (map current (run_calls calls p)) \<and>
         (\<forall>s\<in>set (run_calls calls p).
            tokens s = tokens p \<and> 0 \<le> current s \<and> current s \<le> int (length (tokens p))) \<and>
         current p \<le> current (snd (run_call c p)) \<and>
         current (snd (run_call c p)) \<le> int (length (tokens p)) \<and>
         current p \<le> current (snd (parse_precedence_loop precedence p)) \<and>
         current (snd (parse_precedence_loop precedence p)) \<le> int (length (tokens p)) \<and>
         (same_from p q \<longrightarrow>
            same_result (run_call c p) (run_call c q) \<and>
            same_result (parse_precedence_loop precedence p)
              (parse_precedence_loop precedence q) \<and>
            list_all2 same_from (run_calls calls p) (run_calls calls q))"
proof -
  have "tokens s = tokens p \<and> 0 \<le> current s \<and> current s \<le> int (length (tokens p))"
    if "s \<in> set (run_calls calls p)" for s
    using run_calls_advances[OF advances_refl that] assms by (simp add: advances_def)
  moreover have "current p \<le> current (snd (run_call c p)) \<and>
      current (snd (run_call c p)) \<le> int (length (tokens p))"
    using run_call_advances[of p c] assms by (simp add: advances_def)
  moreover have "current p \<le> current (snd (parse_precedence_loop precedence p)) \<and>
      current (snd (parse_precedence_loop precedence p)) \<le> int (length (tokens p))"
    using parse_advances(2)[of p precedence] assms by (simp add: advances_def)
  moreover have "same_result (parse_precedence_loop precedence p)
      (parse_precedence_loop precedence q)" if "same_from p q"
    using parse_same(2)[of p precedence] assms(1) that by blast
  ultimately show ?thesis
    using run_calls_sorted[of calls p] run_call_same[OF assms(1), of q c]
      run_calls_same[OF assms(1), of q calls]
    by blast
qed

theorem cursor_monotone_witness:
  "map current (run_calls [Call_number, Call_parse_precedence 0, Call_binary]
      (PrattParser_init [\<lparr>lexeme = CHR ''1'', kind = NUMBER\<rparr>, \<lparr>lexeme = CHR ''+'', kind = PLUS\<rparr>,
         \<lparr>lexeme = CHR ''2'', kind = NUMBER\<rparr>, \<lparr>lexeme = CHR ''3'', kind = NUMBER\<rparr>])) = [0, 1, 1, 3] \<and>
   sorted [0, 1, 1, 3 :: int] \<and>
   current (snd (run_call Call_binary
      \<lparr>tokens = [\<lparr>lexeme = CHR ''*'', kind = MULTIPLY\<rparr>, \<lparr>lexeme = CHR ''+'', kind = PLUS\<rparr>,
         \<lparr>lexeme = CHR ''2'', kind = NUMBER\<rparr>], current = 1, bytecode = []\<rparr>)) = 3"
proof -
  let ?start = "PrattParser_init [\<lparr>lexeme = CHR ''1'', kind = NUMBER\<rparr>, \<lparr>lexeme = CHR ''+'', kind = PLUS\<rparr>,
         \<lparr>lexeme = CHR ''2'', kind = NUMBER\<rparr>, \<lparr>lexeme = CHR ''3'', kind = NUMBER\<rparr>]"
  let ?p = "\<lparr>tokens = [\<lparr>lexeme = CHR ''1'', kind = NUMBER\<rparr>, \<lparr>lexeme = CHR ''+'', kind = PLUS\<rparr>,
         \<lparr>lexeme = CHR ''2'', kind = NUMBER\<rparr>], current = 1, bytecode = []\<rparr>"
  let ?q = "\<lparr>tokens = [\<lparr>lexeme = CHR ''*'', kind = MULTIPLY\<rparr>, \<lparr>lexeme = CHR ''+'', kind = PLUS\<rparr>,
         \<lparr>lexeme = CHR ''2'', kind = NUMBER\<rparr>], current = 1, bytecode = []\<rparr>"
  have m: "map current (run_calls [Call_number, Call_parse_precedence 0, Call_binary] ?start) = [0, 1, 1, 3]"
    by code_simp
  have "sorted (map current (run_calls [Call_number, Call_parse_precedence 0, Call_binary] ?start))"
    using cursor_monotone[where p = ?start
        and calls = "[Call_number, Call_parse_precedence 0, Call_binary]"]
    by (simp add: PrattParser_init_def)
  then have s: "sorted [0, 1, 1, 3 :: int]"
    by (simp only: m)
  have "i = 1 \<or> i = 2" if "1 \<le> i" "i < 3" for i :: int
    using that by arith
  then have sf: "same_from ?p ?q"
    by (auto simp: same_from_def)
  have "same_result (run_call Call_binary ?p) (run_call Call_binary ?q)"
    using cursor_monotone[where p = ?p and calls = "[]" and c = Call_binary and q = ?q] sf
    by simp
  then have "current (snd (run_call Call_binary ?q)) = current (snd (run_call Call_binary ?p))"
    by (simp add: same_result_def same_from_def)
  moreover have "current (snd (run_call Call_binary ?p)) = 3"
    by code_simp
  ultimately show ?thesis using m s by simp
qed

theorem binary_operator_witness:
  "binary \<lparr>tokens = [\<lparr>lexeme = CHR ''1'', kind = NUMBER\<rparr>, \<lparr>lexeme = CHR ''+'', kind = PLUS\<rparr>,
       \<lparr>lexeme = CHR ''2'', kind = NUMBER\<rparr>, \<lparr>lexeme = CHR ''*'', kind = MULTIPLY\<rparr>,
       \<lparr>lexeme = CHR ''3'', kind = NUMBER\<rparr>, \<lparr>lexeme = CHR ''+'', kind = PLUS\<rparr>,
       \<lparr>lexeme = CHR ''4'', kind = NUMBER\<rparr>],
     current = 1, bytecode = [ConstantInstruction 1]\<rparr> =
   (None, \<lparr>tokens = [\<lparr>lexeme = CHR ''1'', kind = NUMBER\<rparr>, \<lparr>lexeme = CHR ''+'', kind = PLUS\<rparr>,
       \<lparr>lexeme = CHR ''2'', kind = NUMBER\<rparr>, \<lparr>lexeme = CHR ''*'', kind = MULTIPLY\<rparr>,
       \<lparr>lexeme = CHR ''3'', kind = NUMBER\<rparr>, \<lparr>lexeme = CHR ''+'', kind = PLUS\<rparr>,
       \<lparr>lexeme = CHR ''4'', kind = NUMBER\<rparr>],
     current = 5,
     bytecode = [ConstantInstruction 1, ConstantInstruction 2, ConstantInstruction 3,
       MultiplyInstruction, AddInstruction]\<rparr>)"
proof -
  let ?ts = "[\<lparr>lexeme = CHR ''1'', kind = NUMBER\<rparr>, \<lparr>lexeme = CHR ''+'', kind = PLUS\<rparr>,
       \<lparr>lexeme = CHR ''2'', kind = NUMBER\<rparr>, \<lparr>lexeme = CHR ''*'', kind = MULTIPLY\<rparr>,
       \<lparr>lexeme = CHR ''3'', kind = NUMBER\<rparr>, \<lparr>lexeme = CHR ''+'', kind = PLUS\<rparr>,
       \<lparr>lexeme = CHR ''4'', kind = NUMBER\<rparr>]"
  let ?p = "\<lparr>tokens = ?ts, current = 1, bytecode = [ConstantInstruction 1]\<rparr>"
  have r: "parse_precedence 1 \<lparr>tokens = ?ts, current = 2, bytecode = [ConstantInstruction 1]\<rparr> =
     (None, \<lparr>tokens = ?ts, current = 5,
        bytecode = [ConstantInstruction 1, ConstantInstruction 2, ConstantInstruction 3,
          MultiplyInstruction]\<rparr>)"
    by code_simp
  show ?thesis
    using binary_operator[of ?p PLUS] r by (simp add: increase_simps emit_def)
qed

section \<open>The run on well-formed expressions\<close>

lemma decimal_digit_facts:
  assumes "decimal_digit c"
  shows "isdigit c" "\<not> isspace c" "py_int c = Some (digit_value c)"
    "c \<noteq> CHR ''+''" "c \<noteq> CHR ''*''" "kind (char_token c) = NUMBER" "lexeme (char_token c) = c"
  using assms
  by (auto simp: decimal_digit_def isdigit_def isspace_def py_int_def digit_value_def char_token_def)

lemma operator_facts:
  "\<not> isspace (CHR ''+'')" "\<not> isdigit (CHR ''+'')" "\<not> isspace (CHR ''*'')" "\<not> isdigit (CHR ''*'')"
  "kind (char_token (CHR ''+'')) = PLUS" "kind (char_token (CHR ''*'')) = MULTIPLY"
  by (simp_all add: isspace_def isdigit_def char_token_def)

lemma scan_loop_strip:
  "simple_scan_loop source acc = simple_scan_loop (strip_space source) acc"
  by (induction source arbitrary: acc) (simp_all add: strip_space_def)

lemma scan_loop_tokens:
  assumes "list_all (\<lambda>c. decimal_digit c \<or> c = CHR ''+'' \<or> c = CHR ''*'') cs"
  shows "simple_scan_loop cs acc = Inr (acc @ map char_token cs)"
  using assms
proof (induction cs arbitrary: acc)
  case Nil
  then show ?case by simp
next
  case (Cons c cs)
  have rest: "simple_scan_loop cs acc' = Inr (acc' @ map char_token cs)" for acc'
    using Cons by simp
  from Cons.prems have "decimal_digit c \<or> c = CHR ''+'' \<or> c = CHR ''*''" by simp
  then show ?case
  proof (elim disjE)
    assume d: "decimal_digit c"
    show ?thesis
      using decimal_digit_facts[OF d] by (simp add: rest char_token_def)
  next
    assume "c = CHR ''+''"
    then show ?thesis using operator_facts by (simp add: rest char_token_def)
  next
    assume "c = CHR ''*''"
    then show ?thesis using operator_facts by (simp add: rest char_token_def)
  qed
qed

lemma mul_text_snoc: "mul_text (ds @ [d]) = mul_text ds @ [CHR ''*'', d]"
  by (simp add: mul_text_def)

lemma plus_text_snoc: "plus_text (ts @ [u]) = plus_text ts @ CHR ''+'' # term_text u"
  by (simp add: plus_text_def)

lemma term_chars_flat:
  "term_chars cs t \<Longrightarrow> \<exists>u. cs = term_text u \<and> t = term_tree u \<and> term_digits u"
proof (induction rule: term_chars.induct)
  case (term_digit c)
  then have "[c] = term_text (c, []) \<and> Num (digit_value c) = term_tree (c, []) \<and> term_digits (c, [])"
    by (simp add: mul_text_def)
  then show ?case by blast
next
  case (term_times cs t d)
  then obtain c ds where u: "cs = term_text (c, ds)" "t = term_tree (c, ds)" "term_digits (c, ds)"
    by (metis surj_pair)
  have "cs @ [CHR ''*'', d] = term_text (c, ds @ [d]) \<and>
        Mul t (Num (digit_value d)) = term_tree (c, ds @ [d]) \<and> term_digits (c, ds @ [d])"
    using u term_times.hyps(2) by (simp add: mul_text_snoc)
  then show ?case by blast
qed

lemma expr_chars_flat:
  "expr_chars cs e \<Longrightarrow>
     \<exists>u ts. cs = term_text u @ plus_text ts \<and> e = expr_tree (u, ts) \<and>
       term_digits u \<and> list_all term_digits ts"
proof (induction rule: expr_chars.induct)
  case (expr_term cs t)
  then obtain u where "cs = term_text u \<and> t = term_tree u \<and> term_digits u"
    using term_chars_flat by blast
  then have "cs = term_text u @ plus_text [] \<and> t = expr_tree (u, []) \<and>
       term_digits u \<and> list_all term_digits []"
    by (simp add: plus_text_def expr_tree_def)
  then show ?case by blast
next
  case (expr_plus cs e cs' t)
  then obtain u ts where a: "cs = term_text u @ plus_text ts" "e = expr_tree (u, ts)"
       "term_digits u" "list_all term_digits ts"
    by blast
  obtain v where b: "cs' = term_text v" "t = term_tree v" "term_digits v"
    using term_chars_flat[OF expr_plus.hyps(2)] by blast
  have "cs @ CHR ''+'' # cs' = term_text u @ plus_text (ts @ [v]) \<and>
        Add e t = expr_tree (u, ts @ [v]) \<and> term_digits u \<and> list_all term_digits (ts @ [v])"
    using a b by (simp add: plus_text_snoc expr_tree_def)
  then show ?case by blast
qed


lemma shift_shift: "shift m c2 (shift n c1 p) = shift (n + m) (c1 @ c2) p"
  by (simp add: shift_def)

lemma step_is_shift: "p\<lparr>current := current p + 1\<rparr> = shift 1 [] p"
  by (simp add: shift_def)

lemma emit_is_shift: "emit i p = shift 0 [i] p"
  by (simp add: shift_def emit_def)

lemma at_cursor_shift:
  "at_cursor p pre (xs @ suf) \<Longrightarrow> at_cursor (shift (length xs) code p) (pre @ xs) suf"
  by (simp add: at_cursor_def shift_def)

lemma at_cursor_shift1:
  "at_cursor p pre (x # suf) \<Longrightarrow> at_cursor (shift 1 code p) (pre @ [x]) suf"
  by (simp add: at_cursor_def shift_def)

lemma at_cursor_read:
  assumes "at_cursor p pre (x # suf)"
  shows "py_index (tokens p) (current p) = Some x"
    and "current p < int (length (tokens p))"
    and "\<not> int (length (tokens p)) \<le> current p"
  using assms by (simp_all add: at_cursor_def py_index_def)

lemma at_cursor_end:
  "at_cursor p pre [] \<Longrightarrow> \<not> current p < int (length (tokens p))"
  by (simp add: at_cursor_def)

lemma number_digit:
  assumes "at_cursor p pre (char_token c # suf)" and "decimal_digit c"
  shows "number p = (None, shift 1 [ConstantInstruction (digit_value c)] p)"
proof -
  have "py_index (tokens p) (current p) = Some (char_token c)"
    using at_cursor_read(1)[OF assms(1)] .
  then show ?thesis
    using at_cursor_read(3)[OF assms(1)] decimal_digit_facts(3,7)[OF assms(2)]
    by (simp add: number_def Let_def emit_def shift_def)
qed

lemma loop_stops:
  assumes "at_cursor p pre suf"
      and "suf = [] \<or> kind_value (kind (hd suf)) < precedence"
  shows "parse_precedence_loop precedence p = (None, p)"
proof (cases suf)
  case Nil
  then show ?thesis
    using at_cursor_end assms(1) by (subst parse_precedence_loop_unfold) simp
next
  case (Cons x xs)
  then have "py_index (tokens p) (current p) = Some x" "kind_value (kind x) < precedence"
    using at_cursor_read(1) assms by auto
  then show ?thesis
    by (subst parse_precedence_loop_unfold) simp
qed

lemma operand_of_times:
  assumes "at_cursor p pre (char_token c # suf)" and "decimal_digit c"
      and "suf = [] \<or> kind (hd suf) \<noteq> NUMBER"
  shows "parse_precedence 2 p = (None, shift 1 [ConstantInstruction (digit_value c)] p)"
proof -
  let ?p' = "shift 1 [ConstantInstruction (digit_value c)] p"
  have "suf = [] \<or> kind_value (kind (hd suf)) < 2"
    using assms(3) by (cases "kind (hd suf)") auto
  then have "parse_precedence_loop 2 ?p' = (None, ?p')"
    using loop_stops[OF at_cursor_shift1[OF assms(1)]] by simp
  then show ?thesis
    using at_cursor_read(1,3)[OF assms(1)] decimal_digit_facts(6)[OF assms(2)]
      number_digit[OF assms(1,2)]
    by (simp add: parse_precedence_unfold call_def)
qed


lemma binary_times:
  assumes "at_cursor p pre (char_token (CHR ''*'') # char_token d # suf)" and "decimal_digit d"
      and "suf = [] \<or> kind (hd suf) \<noteq> NUMBER"
  shows "binary p =
     (None, shift 2 [ConstantInstruction (digit_value d), MultiplyInstruction] p)"
proof -
  let ?p1 = "shift 1 [] p"
  have a1: "at_cursor ?p1 (pre @ [char_token (CHR ''*'')]) (char_token d # suf)"
    using at_cursor_shift1[OF assms(1)] .
  have "parse_precedence 2 ?p1 = (None, shift 1 [ConstantInstruction (digit_value d)] ?p1)"
    using operand_of_times[OF a1 assms(2,3)] .
  then show ?thesis
    using at_cursor_read(1,3)[OF assms(1)]
    by (simp add: binary.simps operator_facts increase_simps step_is_shift emit_is_shift
        shift_shift numeral_2_eq_2)
qed

lemma hd_mul_text:
  "suf = [] \<or> kind (hd suf) = PLUS \<Longrightarrow>
     map char_token (mul_text ds) @ suf = [] \<or>
     kind (hd (map char_token (mul_text ds) @ suf)) \<noteq> NUMBER"
  by (cases ds) (auto simp: mul_text_def operator_facts)

lemma times_loop:
  assumes "precedence \<le> 1"
      and "at_cursor p pre (map char_token (mul_text ds) @ suf)"
      and "list_all decimal_digit ds"
      and "suf = [] \<or> kind (hd suf) = PLUS"
  shows "parse_precedence_loop precedence p =
     parse_precedence_loop precedence (shift (2 * length ds) (mul_code ds) p)"
  using assms(2,3)
proof (induction ds arbitrary: p pre)
  case Nil
  then show ?case by (simp add: mul_code_def shift_def)
next
  case (Cons d ds)
  let ?rest = "map char_token (mul_text ds) @ suf"
  let ?p2 = "shift 2 [ConstantInstruction (digit_value d), MultiplyInstruction] p"
  have a: "at_cursor p pre (char_token (CHR ''*'') # char_token d # ?rest)"
    using Cons.prems(1) by (simp add: mul_text_def)
  have d: "decimal_digit d" and ds: "list_all decimal_digit ds"
    using Cons.prems(2) by simp_all
  have b: "binary p = (None, ?p2)"
    using binary_times[OF a d hd_mul_text[OF assms(4)]] .
  have "at_cursor ?p2 (pre @ [char_token (CHR ''*''), char_token d]) ?rest"
    using at_cursor_shift[of p pre "[char_token (CHR ''*''), char_token d]" ?rest] a
    by (simp add: numeral_2_eq_2)
  then have ih: "parse_precedence_loop precedence ?p2 =
     parse_precedence_loop precedence (shift (2 * length ds) (mul_code ds) ?p2)"
    using Cons.IH ds by blast
  have "parse_precedence_loop precedence p = parse_precedence_loop precedence ?p2"
    using at_cursor_read(1,2)[OF a] assms(1) b
    by (subst parse_precedence_loop_unfold) (simp add: operator_facts call_def)
  then show ?case
    using ih by (simp add: shift_shift mul_code_def)
qed

lemma term_then_loop:
  assumes "precedence \<le> 1"
      and "at_cursor p pre (map char_token (term_text u) @ suf)"
      and "term_digits u"
      and "suf = [] \<or> kind (hd suf) = PLUS"
  shows "parse_precedence precedence p =
     parse_precedence_loop precedence (shift (length (term_text u)) (term_code u) p)"
proof -
  obtain c ds where u: "u = (c, ds)" by (cases u)
  let ?rest = "map char_token (mul_text ds) @ suf"
  let ?p1 = "shift 1 [ConstantInstruction (digit_value c)] p"
  have a: "at_cursor p pre (char_token c # ?rest)"
    using assms(2) u by simp
  have c: "decimal_digit c" and ds: "list_all decimal_digit ds"
    using assms(3) u by simp_all
  have n: "number p = (None, ?p1)"
    using number_digit[OF a c] .
  have "parse_precedence precedence p = parse_precedence_loop precedence ?p1"
    using at_cursor_read(1,3)[OF a] decimal_digit_facts(6)[OF c] n
    by (simp add: parse_precedence_unfold call_def)
  also have "\<dots> = parse_precedence_loop precedence (shift (2 * length ds) (mul_code ds) ?p1)"
    using times_loop[OF assms(1) at_cursor_shift1[OF a] ds assms(4)] .
  finally show ?thesis
    using u by (simp add: shift_shift mul_text_def length_concat comp_def sum_list_triv mult_2)
qed


lemma hd_plus_text:
  "map char_token (plus_text ts) = [] \<or> kind (hd (map char_token (plus_text ts))) = PLUS"
  by (cases ts) (auto simp: plus_text_def operator_facts)

lemma binary_plus:
  assumes "at_cursor p pre (char_token (CHR ''+'') # map char_token (term_text u) @ suf)"
      and "term_digits u"
      and "suf = [] \<or> kind (hd suf) = PLUS"
  shows "binary p =
     (None, shift (Suc (length (term_text u))) (term_code u @ [AddInstruction]) p)"
proof -
  let ?p1 = "shift 1 [] p"
  let ?p2 = "shift (length (term_text u)) (term_code u) ?p1"
  have a1: "at_cursor ?p1 (pre @ [char_token (CHR ''+'')]) (map char_token (term_text u) @ suf)"
    using at_cursor_shift1[OF assms(1)] .
  have a2: "at_cursor ?p2 ((pre @ [char_token (CHR ''+'')]) @ map char_token (term_text u)) suf"
    using at_cursor_shift[OF a1, of "term_code u"] by simp
  have "suf = [] \<or> kind_value (kind (hd suf)) < 1"
    using assms(3) by auto
  then have "parse_precedence_loop 1 ?p2 = (None, ?p2)"
    using loop_stops[OF a2] by simp
  then have "parse_precedence 1 ?p1 = (None, ?p2)"
    using term_then_loop[OF _ a1 assms(2,3), of 1] by simp
  then show ?thesis
    using at_cursor_read(1,3)[OF assms(1)]
    by (simp add: binary.simps operator_facts increase_simps step_is_shift emit_is_shift
        shift_shift)
qed

lemma plus_loop:
  assumes "precedence \<le> 0"
      and "at_cursor p pre (map char_token (plus_text ts))"
      and "list_all term_digits ts"
  shows "parse_precedence_loop precedence p =
     (None, shift (length (plus_text ts)) (plus_code ts) p)"
  using assms(2,3)
proof (induction ts arbitrary: p pre)
  case Nil
  then have "at_cursor p pre []" by (simp add: plus_text_def)
  then have "parse_precedence_loop precedence p = (None, p)"
    using loop_stops by blast
  then show ?case by (simp add: plus_text_def plus_code_def shift_def)
next
  case (Cons u ts)
  let ?rest = "map char_token (plus_text ts)"
  let ?n = "Suc (length (term_text u))"
  let ?p2 = "shift ?n (term_code u @ [AddInstruction]) p"
  have a: "at_cursor p pre (char_token (CHR ''+'') # map char_token (term_text u) @ ?rest)"
    using Cons.prems(1) by (simp add: plus_text_def)
  have u: "term_digits u" and ts: "list_all term_digits ts"
    using Cons.prems(2) by simp_all
  have b: "binary p = (None, ?p2)"
    using binary_plus[OF a u hd_plus_text] .
  have "at_cursor ?p2 (pre @ char_token (CHR ''+'') # map char_token (term_text u)) ?rest"
    using at_cursor_shift[of p pre "char_token (CHR ''+'') # map char_token (term_text u)" ?rest] a
    by simp
  then have ih: "parse_precedence_loop precedence ?p2 =
     (None, shift (length (plus_text ts)) (plus_code ts) ?p2)"
    using Cons.IH ts by blast
  have "parse_precedence_loop precedence p = parse_precedence_loop precedence ?p2"
    using at_cursor_read(1,2)[OF a] assms(1) b
    by (subst parse_precedence_loop_unfold) (simp add: operator_facts call_def)
  then show ?case
    using ih by (simp add: shift_shift plus_code_def plus_text_def)
qed

lemma parse_expression:
  assumes "precedence \<le> 0" and "term_digits u" and "list_all term_digits ts"
  shows "parse_precedence precedence
           (PrattParser_init (map char_token (term_text u @ plus_text ts))) =
         (None, \<lparr>tokens = map char_token (term_text u @ plus_text ts),
                 current = int (length (term_text u @ plus_text ts)),
                 bytecode = term_code u @ plus_code ts\<rparr>)"
proof -
  let ?toks = "map char_token (term_text u @ plus_text ts)"
  let ?p = "PrattParser_init ?toks"
  let ?p1 = "shift (length (term_text u)) (term_code u) ?p"
  have a: "at_cursor ?p [] (map char_token (term_text u) @ map char_token (plus_text ts))"
    by (simp add: at_cursor_def PrattParser_init_def)
  have le: "precedence \<le> 1" using assms(1) by simp
  have "parse_precedence precedence ?p = parse_precedence_loop precedence ?p1"
    using term_then_loop[OF le a assms(2) hd_plus_text] .
  also have "\<dots> = (None, shift (length (plus_text ts)) (plus_code ts) ?p1)"
    using plus_loop[OF assms(1) at_cursor_shift[OF a, of "term_code u"] assms(3)] by simp
  finally show ?thesis
    by (simp add: shift_def PrattParser_init_def)
qed


lemma postfix_times_fold:
  "postfix (foldl (\<lambda>t d. Mul t (Num (digit_value d))) t0 ds) = postfix t0 @ mul_code ds"
  by (induction ds arbitrary: t0) (simp_all add: mul_code_def)

lemma postfix_term_tree: "postfix (term_tree u) = term_code u"
  by (cases u) (simp add: postfix_times_fold)

lemma postfix_plus_fold:
  "postfix (foldl (\<lambda>e u. Add e (term_tree u)) e0 ts) = postfix e0 @ plus_code ts"
  by (induction ts arbitrary: e0) (simp_all add: plus_code_def postfix_term_tree)

lemma postfix_expr_tree: "postfix (expr_tree (u, ts)) = term_code u @ plus_code ts"
  by (simp add: expr_tree_def postfix_plus_fold postfix_term_tree)

lemma interpret_loop_postfix:
  "\<exists>out'. interpret_loop (postfix e) stack out = (out', Inr (stack @ [eval e]))"
proof (induction e arbitrary: stack out)
  case (Num n)
  then show ?case by simp
next
  case (Add a b)
  obtain o1 where 1: "interpret_loop (postfix a) stack out = (o1, Inr (stack @ [eval a]))"
    using Add.IH(1) by blast
  obtain o2 where 2: "interpret_loop (postfix b) (stack @ [eval a]) o1 =
      (o2, Inr ((stack @ [eval a]) @ [eval b]))"
    using Add.IH(2) by blast
  have "execute_instruction AddInstruction (stack @ [eval a, eval b]) = Inr (stack @ [eval a + eval b])"
    by (rule execute_binary_ok)
  then show ?case
    using 1 2 by (simp add: interpret_loop_append del: execute_instruction.simps)
next
  case (Mul a b)
  obtain o1 where 1: "interpret_loop (postfix a) stack out = (o1, Inr (stack @ [eval a]))"
    using Mul.IH(1) by blast
  obtain o2 where 2: "interpret_loop (postfix b) (stack @ [eval a]) o1 =
      (o2, Inr ((stack @ [eval a]) @ [eval b]))"
    using Mul.IH(2) by blast
  have "execute_instruction MultiplyInstruction (stack @ [eval a, eval b]) = Inr (stack @ [eval a * eval b])"
    by (rule execute_binary_ok)
  then show ?case
    using 1 2 by (simp add: interpret_loop_append del: execute_instruction.simps)
qed

lemma flat_chars:
  assumes "term_digits u" and "list_all term_digits ts"
  shows "list_all (\<lambda>c. decimal_digit c \<or> c = CHR ''+'' \<or> c = CHR ''*'') (term_text u @ plus_text ts)"
proof -
  have m: "list_all (\<lambda>c. decimal_digit c \<or> c = CHR ''+'' \<or> c = CHR ''*'') (mul_text ds)"
    if "list_all decimal_digit ds" for ds
    using that by (induction ds) (simp_all add: mul_text_def)
  have t: "list_all (\<lambda>c. decimal_digit c \<or> c = CHR ''+'' \<or> c = CHR ''*'') (term_text v)"
    if "term_digits v" for v
    using that m by (cases v) simp
  have "list_all (\<lambda>c. decimal_digit c \<or> c = CHR ''+'' \<or> c = CHR ''*'') (plus_text ts)"
    using assms(2) t by (induction ts) (simp_all add: plus_text_def)
  then show ?thesis using t[OF assms(1)] by simp
qed

lemma run_expression:
  assumes "expr_chars (strip_space source) e"
  shows "simple_scan source = Inr (map char_token (strip_space source)) \<and>
         parse_precedence 0 (PrattParser_init (map char_token (strip_space source))) =
           (None, \<lparr>tokens = map char_token (strip_space source),
                   current = int (length (strip_space source)),
                   bytecode = postfix e\<rparr>) \<and>
         (\<exists>out. interpret_bytecode (postfix e) = (out, Inr [eval e]))"
proof -
  obtain u ts where f: "strip_space source = term_text u @ plus_text ts" "e = expr_tree (u, ts)"
      "term_digits u" "list_all term_digits ts"
    using expr_chars_flat[OF assms] by blast
  have "simple_scan source = simple_scan_loop (strip_space source) []"
    using scan_loop_strip[of source "[]"] by (simp add: simple_scan_def)
  then have s: "simple_scan source = Inr (map char_token (strip_space source))"
    using scan_loop_tokens[OF flat_chars[OF f(3,4)], of "[]"] f(1) by simp
  have p: "parse_precedence 0 (PrattParser_init (map char_token (strip_space source))) =
           (None, \<lparr>tokens = map char_token (strip_space source),
                   current = int (length (strip_space source)),
                   bytecode = postfix e\<rparr>)"
    using parse_expression[OF _ f(3,4), of 0] f(1,2) by (simp add: postfix_expr_tree)
  have "\<exists>out. interpret_bytecode (postfix e) = (out, Inr [eval e])"
    using interpret_loop_postfix[of e "[]" "[]"] by (simp add: interpret_bytecode_def)
  then show ?thesis using s p by blast
qed











lemma jumptable_infix_None: "snd (jumptable k) = None \<longleftrightarrow> k = NUMBER"
  by (cases k) simp_all

text \<open>
  Claim C8, as stated, fails: the infix dispatch on a kind without infix handler is
  reachable. The source \<^verbatim>\<open>12\<close> scans to two \<open>NUMBER\<close> tokens, and the loop of
  \<^verbatim>\<open>parse_precedence\<close> raises \<open>NoInfixParselet\<close> on the second, after \<^verbatim>\<open>CONST 1\<close>
  was emitted.
\<close>

theorem adjacent_digits_no_infix:
  "simple_scan ''12'' =
     Inr [\<lparr>lexeme = CHR ''1'', kind = NUMBER\<rparr>, \<lparr>lexeme = CHR ''2'', kind = NUMBER\<rparr>] \<and>
   parse_precedence 0 (PrattParser_init
       [\<lparr>lexeme = CHR ''1'', kind = NUMBER\<rparr>, \<lparr>lexeme = CHR ''2'', kind = NUMBER\<rparr>]) =
     (Some NoInfixParselet,
      \<lparr>tokens = [\<lparr>lexeme = CHR ''1'', kind = NUMBER\<rparr>, \<lparr>lexeme = CHR ''2'', kind = NUMBER\<rparr>],
       current = 1, bytecode = [ConstantInstruction 1]\<rparr>) \<and>
   main_on ''12'' = Inl NoInfixParselet"
  by code_simp

text \<open>
  Claim C8, amended. \<open>NUMBER\<close> is the only kind without infix handler; with the cursor
  in range on a \<open>NUMBER\<close> token the loop of \<^verbatim>\<open>parse_precedence\<close> (any precedence up to
  2) raises \<open>NoInfixParselet\<close> and leaves the parser as it was; and on every source that
  is a well-formed expression the parser returns without raising, so that failure does
  not occur there.
\<close>

theorem no_infix_parselet:
  "(snd (jumptable k) = None \<longleftrightarrow> k = NUMBER) \<and>
   (0 \<le> current p \<and> current p < int (length (tokens p)) \<and>
    kind (tokens p ! nat (current p)) = NUMBER \<and> precedence \<le> 2 \<longrightarrow>
      parse_precedence_loop precedence p = (Some NoInfixParselet, p)) \<and>
   (expr_chars (strip_space source) e \<longrightarrow>
      simple_scan source = Inr (map char_token (strip_space source)) \<and>
      fst (parse_precedence 0 (PrattParser_init (map char_token (strip_space source)))) = None \<and>
      main_on source \<noteq> Inl NoInfixParselet)"
proof -
  have a: "parse_precedence_loop precedence p = (Some NoInfixParselet, p)"
    if "0 \<le> current p" "current p < int (length (tokens p))"
      "kind (tokens p ! nat (current p)) = NUMBER" "precedence \<le> 2"
    using that py_index_in_range[OF that(1,2)]
    by (subst parse_precedence_loop_unfold) simp
  have b: "simple_scan source = Inr (map char_token (strip_space source)) \<and>
      fst (parse_precedence 0 (PrattParser_init (map char_token (strip_space source)))) = None \<and>
      main_on source \<noteq> Inl NoInfixParselet"
    if h: "expr_chars (strip_space source) e"
  proof -
    obtain out where "interpret_bytecode (postfix e) = (out, Inr [eval e])"
      using run_expression[OF h] by blast
    then show ?thesis
      using run_expression[OF h] by (simp add: main_on_def)
  qed
  show ?thesis
    using a b jumptable_infix_None[of k] by blast
qed

theorem no_infix_parselet_witness:
  "parse_precedence_loop 0
     \<lparr>tokens = [\<lparr>lexeme = CHR ''1'', kind = NUMBER\<rparr>, \<lparr>lexeme = CHR ''2'', kind = NUMBER\<rparr>],
      current = 1, bytecode = [ConstantInstruction 1]\<rparr> =
     (Some NoInfixParselet,
      \<lparr>tokens = [\<lparr>lexeme = CHR ''1'', kind = NUMBER\<rparr>, \<lparr>lexeme = CHR ''2'', kind = NUMBER\<rparr>],
       current = 1, bytecode = [ConstantInstruction 1]\<rparr>) \<and>
   simple_scan ''1 + 2'' = Inr (map char_token ''1+2'') \<and>
   fst (parse_precedence 0 (PrattParser_init (map char_token ''1+2''))) = None \<and>
   main_on ''1 + 2'' \<noteq> Inl NoInfixParselet"
proof -
  have s: "strip_space ''1 + 2'' = ''1+2''"
    by (simp add: strip_space_def isspace_def)
  have d: "decimal_digit (CHR ''1'')" "decimal_digit (CHR ''2'')"
    by (simp_all add: decimal_digit_def)
  have "term_chars ''1'' (Num (digit_value (CHR ''1'')))"
    using d(1) by (rule term_digit)
  then have "expr_chars ''1'' (Num (digit_value (CHR ''1'')))"
    by (rule expr_term)
  moreover have "term_chars ''2'' (Num (digit_value (CHR ''2'')))"
    using d(2) by (rule term_digit)
  ultimately have "expr_chars (''1'' @ CHR ''+'' # ''2'')
      (Add (Num (digit_value (CHR ''1''))) (Num (digit_value (CHR ''2''))))"
    by (rule expr_plus)
  then have e: "expr_chars (strip_space ''1 + 2'')
      (Add (Num (digit_value (CHR ''1''))) (Num (digit_value (CHR ''2''))))"
    by (simp add: s)
  show ?thesis
    using e no_infix_parselet[of NUMBER
        "\<lparr>tokens = [\<lparr>lexeme = CHR ''1'', kind = NUMBER\<rparr>, \<lparr>lexeme = CHR ''2'', kind = NUMBER\<rparr>],
          current = 1, bytecode = [ConstantInstruction 1]\<rparr>" 0 "''1 + 2''"
        "Add (Num (digit_value (CHR ''1''))) (Num (digit_value (CHR ''2'')))"]
    by (simp add: s)
qed

end
